theory Spec2Isabelle
  imports Main "HOL-Library.Word"
begin

section \<open>Bytes, memory cells and little-endian integers\<close>

text \<open>
  The archive code of \<^verbatim>\<open>src/yep/yep.c\<close> works on bytes: file contents, the 64-byte name
  slot, and the object representation of the \<^verbatim>\<open>uint16_t\<close> and \<^verbatim>\<open>uint32_t\<close> variables
  that \<^verbatim>\<open>fread\<close> and \<^verbatim>\<open>fwrite\<close> copy (little-endian, as the format states).
  A \<^verbatim>\<open>char *\<close> string is the list of its bytes before the terminator.
  Memory that the program allocates and has not written yet is indeterminate: a cell of such
  memory is \<open>None\<close>.
\<close>

type_synonym byte = "8 word"
type_synonym bytes = "byte list"
type_synonym u16 = "16 word"
type_synonym u32 = "32 word"
type_synonym cell = "byte option"

fun le_bytes :: "nat \<Rightarrow> nat \<Rightarrow> bytes" where
  "le_bytes 0 v = []"
| "le_bytes (Suc n) v = of_nat (v mod 256) # le_bytes n (v div 256)"

fun le_val :: "bytes \<Rightarrow> nat" where
  "le_val [] = 0"
| "le_val (b # bs) = unat b + 256 * le_val bs"

text \<open>
  What \<^verbatim>\<open>fread\<close> leaves in its destination: the bytes it got, followed by what the
  destination held beyond them (a read at the end of the file gets fewer bytes than asked).
\<close>

definition overlay :: "'a list \<Rightarrow> 'a list \<Rightarrow> 'a list" where
  "overlay got old = got @ drop (length got) old"

text \<open>
  Outcomes that are not a return of the function: the process exits, or the C program does
  something whose result the source does not determine.
\<close>

datatype fault =
    NullStream        \<comment> \<open>a stdio call on the null \<^verbatim>\<open>FILE *\<close>\<close>
  | UseAfterFree      \<comment> \<open>a read through, or a second \<^verbatim>\<open>free\<close> of, a freed pointer\<close>
  | OutOfBounds       \<comment> \<open>an access beyond the end of a buffer\<close>
  | Indeterminate     \<comment> \<open>a value that was never written is used\<close>
  | SignedOverflow    \<comment> \<open>\<^verbatim>\<open>int\<close> arithmetic leaves the range of \<^verbatim>\<open>int\<close>\<close>
  | ProcessExit       \<comment> \<open>\<^verbatim>\<open>exit(1)\<close>\<close>

text \<open>A heap pointer held in a variable: null, live, or left dangling by \<^verbatim>\<open>free\<close>.\<close>

datatype 'a cptr = Null | Valid 'a | Freed

text \<open>
  An output parameter \<^verbatim>\<open>char **output\<close> after a call: never assigned, assigned and freed
  again, or designating a live buffer.
\<close>

datatype 'a outptr = Unset | Released | Buffer 'a

section \<open>The declarations of yep.h\<close>

text \<open>
  \<^verbatim>\<open>yep.h\<close> is not among the sources. The two constants whose values the specification
  does not give are parameters of the model; both are written to the archive through a
  \<^verbatim>\<open>uint8_t\<close> variable, so a parameter is that byte.
\<close>

record yep_h =
  YEP_CURRENT_FORMAT_VERSION :: byte
  YEP_DATATYPE_MISC :: byte

text \<open>
  Modelled from the spec: the macro \<^verbatim>\<open>YEP_HEADER_SIZE_BYTES\<close> of the missing \<^verbatim>\<open>yep.h\<close>
  (``Record width is fixed: 64 + 4 + 4 + 1 + 4 + 1 = 78 bytes'').
\<close>

definition YEP_HEADER_SIZE_BYTES :: nat where
  "YEP_HEADER_SIZE_BYTES = 78"

text \<open>
  Modelled from the spec: the enumerators \<^verbatim>\<open>YEP_COMPRESSION_NONE\<close> and
  \<^verbatim>\<open>YEP_COMPRESSION_ZLIB\<close> of the missing \<^verbatim>\<open>yep.h\<close> (``compression_kind[1]
  (0 = NONE, 1 = DEFLATE)'').
\<close>

definition YEP_COMPRESSION_NONE :: byte where
  "YEP_COMPRESSION_NONE = 0"

definition YEP_COMPRESSION_ZLIB :: byte where
  "YEP_COMPRESSION_ZLIB = 1"

section \<open>The compression library\<close>

text \<open>
  zlib is an external library. The model takes its four entry points as parameters:
  the return codes of \<^verbatim>\<open>deflateInit\<close> and \<^verbatim>\<open>inflateInit\<close>, and for
  \<^verbatim>\<open>deflate(&stream, Z_FINISH)\<close> and \<^verbatim>\<open>inflate(&stream, Z_FINISH)\<close> a function from the
  input bytes (\<^verbatim>\<open>next_in\<close>, \<^verbatim>\<open>avail_in\<close>) and the room in the output buffer
  (\<^verbatim>\<open>avail_out\<close>) to the return code and the bytes written; \<^verbatim>\<open>total_out\<close> is their
  number. \<^verbatim>\<open>avail_in\<close> and \<^verbatim>\<open>avail_out\<close> are 32-bit fields.
\<close>

record zlib =
  deflateInit :: int
  deflate :: "bytes \<Rightarrow> nat \<Rightarrow> int \<times> bytes"
  inflateInit :: int
  inflate :: "bytes \<Rightarrow> nat \<Rightarrow> int \<times> bytes"

definition Z_OK :: int where
  "Z_OK = 0"

definition Z_STREAM_END :: int where
  "Z_STREAM_END = 1"

definition compress_data :: "zlib \<Rightarrow> bytes \<Rightarrow> nat \<Rightarrow> int \<times> bytes outptr" where
  "compress_data z input input_size =
     (if deflateInit z \<noteq> Z_OK then (- 1, Unset)
      else
        let output_size = input_size + input_size div 10 + 12;
            (res, out) = deflate z (take (input_size mod 2 ^ 32) input) (output_size mod 2 ^ 32)
        in if res \<noteq> Z_STREAM_END then (- 1, Released)
           else (0, Buffer out))"

text \<open>
  On success \<^verbatim>\<open>*output_size\<close> is \<^verbatim>\<open>total_out\<close>, the length of the buffer returned here;
  the rest of the allocation is read only by the print of the buffer as a string in
  \<^verbatim>\<open>write_pack_file\<close>, when the buffer holds no zero byte; that print is not part of the
  model of the writer.
  \<^verbatim>\<open>decompress_data\<close> returns the whole allocation of \<^verbatim>\<open>output_size\<close> cells.
\<close>

definition decompress_data :: "zlib \<Rightarrow> bytes \<Rightarrow> nat \<Rightarrow> nat \<Rightarrow> int \<times> cell list outptr" where
  "decompress_data z input input_size output_size =
     (if inflateInit z \<noteq> Z_OK then (- 1, Unset)
      else
        let (res, out) = inflate z (take (input_size mod 2 ^ 32) input) (output_size mod 2 ^ 32);
            buf = overlay (map Some out) (replicate output_size None)
        in if res \<noteq> Z_STREAM_END then (- 1, Released)
           else if output_size \<noteq> length out then (- 1, Buffer buf)
           else (0, Buffer buf))"

section \<open>The open-archive cache\<close>

text \<open>
  The four globals of \<^verbatim>\<open>yep.c\<close>, and the \<^verbatim>\<open>FILE\<close> streams the process holds open:
  a stream opened with \<^verbatim>\<open>"rb"\<close> is the file's content and a position; \<^verbatim>\<open>fopen\<close>
  returns a stream that is not open yet.
\<close>

record stream =
  s_data :: bytes
  s_pos :: nat

record yep_state =
  yep_file_path :: "bytes cptr"
  yep_file :: "nat option"
  file_entry_count :: u16
  file_version_number :: u16
  open_files :: "nat \<Rightarrow> stream option"
  next_file :: nat

definition yep_state_init :: yep_state where
  "yep_state_init =
     \<lparr>yep_file_path = Null, yep_file = None, file_entry_count = 0,
      file_version_number = 0, open_files = (\<lambda>h. None), next_file = 0\<rparr>"

text \<open>
  \<^verbatim>\<open>_yep_open_file\<close>. \<open>fs\<close> is the file system as \<^verbatim>\<open>fopen(file, "rb")\<close> sees it: the
  content of each file that can be opened. The version is read as one byte into the low
  byte of the 16-bit global, the entry count as two bytes.
\<close>

definition yep_open_file ::
  "yep_h \<Rightarrow> (bytes \<Rightarrow> bytes option) \<Rightarrow> yep_state \<Rightarrow> bytes \<Rightarrow> fault + (bool \<times> yep_state)" where
  "yep_open_file h fs st file =
     (if yep_file_path st = Freed then Inl UseAfterFree
      else if yep_file_path st = Valid file then Inr (True, st)
      else
        (case fs file of
           None \<Rightarrow> Inr (False, st\<lparr>yep_file := None\<rparr>)
         | Some content \<Rightarrow>
             let f = next_file st;
                 ver = take 1 content;
                 cnt = take 2 (drop (length ver) content);
                 st' = st
                   \<lparr>yep_file := Some f,
                    yep_file_path := Valid file,
                    file_version_number :=
                      of_nat (le_val (overlay ver (le_bytes 2 (unat (file_version_number st))))),
                    file_entry_count :=
                      of_nat (le_val (overlay cnt (le_bytes 2 (unat (file_entry_count st))))),
                    open_files := (open_files st)
                      (f := Some \<lparr>s_data = content, s_pos = length ver + length cnt\<rparr>),
                    next_file := Suc f\<rparr>
             in Inr (file_version_number st' = ucast (YEP_CURRENT_FORMAT_VERSION h), st')))"

text \<open>\<^verbatim>\<open>_yep_close_file\<close>: the path is freed and the pointer is left as it is.\<close>

definition yep_close_file :: "yep_state \<Rightarrow> fault + yep_state" where
  "yep_close_file st =
     (case yep_file st of
        None \<Rightarrow> Inr st
      | Some f \<Rightarrow>
          (case yep_file_path st of
             Freed \<Rightarrow> Inl UseAfterFree
           | Null \<Rightarrow>
               Inr (st\<lparr>yep_file := None, open_files := (open_files st)(f := None),
                        file_entry_count := 0, file_version_number := 0\<rparr>)
           | Valid p \<Rightarrow>
               Inr (st\<lparr>yep_file := None, open_files := (open_files st)(f := None),
                        yep_file_path := Freed,
                        file_entry_count := 0, file_version_number := 0\<rparr>)))"

section \<open>Looking an entry up and extracting it\<close>

text \<open>
  The automatic variables of \<^verbatim>\<open>yep_extract_data\<close> that \<^verbatim>\<open>_yep_seek_header\<close> fills
  through pointers, as the cells of their object representation. They are not initialised.
\<close>

record hdr_vars =
  v_name :: "cell list"
  v_offset :: "cell list"
  v_size :: "cell list"
  v_compression_type :: "cell list"
  v_uncompressed_size :: "cell list"
  v_data_type :: "cell list"

definition hdr_vars_uninit :: hdr_vars where
  "hdr_vars_uninit =
     \<lparr>v_name = replicate 64 None, v_offset = replicate 4 None, v_size = replicate 4 None,
      v_compression_type = replicate 1 None, v_uncompressed_size = replicate 4 None,
      v_data_type = replicate 1 None\<rparr>"

text \<open>\<^verbatim>\<open>fread(dst, 1, n, stream)\<close> and \<^verbatim>\<open>fread(dst, n, 1, stream)\<close>.\<close>

definition fread_cells :: "stream \<Rightarrow> nat \<Rightarrow> cell list \<Rightarrow> cell list \<times> stream" where
  "fread_cells s n dst =
     (let got = take n (drop (s_pos s) (s_data s))
      in (overlay (map Some got) dst, s\<lparr>s_pos := s_pos s + length got\<rparr>))"

text \<open>The value of a variable, when all of its cells were written.\<close>

definition cells_val :: "cell list \<Rightarrow> nat option" where
  "cells_val cs = map_option le_val (those cs)"

text \<open>
  \<^verbatim>\<open>strcmp(handle, name) == 0\<close> for a string and a buffer: the comparison walks both
  until they differ or the string ends. It reads the buffer's cells; past the last cell it
  is outside the buffer.
\<close>

fun strcmp_eq :: "bytes \<Rightarrow> cell list \<Rightarrow> fault + bool" where
  "strcmp_eq s [] = Inl OutOfBounds"
| "strcmp_eq s (None # bs) = Inl Indeterminate"
| "strcmp_eq [] (Some b # bs) = Inr (b = 0)"
| "strcmp_eq (c # s) (Some b # bs) =
     (if c = 0 then Inr (b = 0)
      else if b = c then strcmp_eq s bs
      else Inr False)"

text \<open>
  The loop of \<^verbatim>\<open>_yep_seek_header\<close>, by the number of iterations left. The print of the
  name buffer as a string is not part of it: it reads inside the buffer whenever the slot
  holds a zero byte, as every slot of a written archive does (\<open>packed_names_printable\<close>).
\<close>

fun seek_loop :: "bytes \<Rightarrow> nat \<Rightarrow> hdr_vars \<Rightarrow> stream \<Rightarrow> fault + (bool \<times> hdr_vars \<times> stream)" where
  "seek_loop handle 0 v s = Inr (False, v, s)"
| "seek_loop handle (Suc n) v s =
     (let (name, s1) = fread_cells s 64 (v_name v);
          (offset, s2) = fread_cells s1 4 (v_offset v);
          (size', s3) = fread_cells s2 4 (v_size v);
          (compression_type, s4) = fread_cells s3 1 (v_compression_type v);
          (uncompressed_size, s5) = fread_cells s4 4 (v_uncompressed_size v);
          (data_type, s6) = fread_cells s5 1 (v_data_type v);
          v' = \<lparr>v_name = name, v_offset = offset, v_size = size',
                v_compression_type = compression_type,
                v_uncompressed_size = uncompressed_size, v_data_type = data_type\<rparr>
      in case strcmp_eq handle name of
           Inl e \<Rightarrow> Inl e
         | Inr True \<Rightarrow> Inr (True, v', s6)
         | Inr False \<Rightarrow> seek_loop handle n v' s6)"

definition yep_seek_header ::
  "yep_state \<Rightarrow> bytes \<Rightarrow> hdr_vars \<Rightarrow> fault + (bool \<times> hdr_vars \<times> yep_state)" where
  "yep_seek_header st handle v =
     (case yep_file st of
        None \<Rightarrow> Inl NullStream
      | Some f \<Rightarrow>
          (case open_files st f of
             None \<Rightarrow> Inl UseAfterFree
           | Some s \<Rightarrow>
               (case seek_loop handle (unat (file_entry_count st)) v (s\<lparr>s_pos := 3\<rparr>) of
                  Inl e \<Rightarrow> Inl e
                | Inr (found, v', s') \<Rightarrow>
                    Inr (found, v', st\<lparr>open_files := (open_files st)(f := Some s')\<rparr>))))"

text \<open>
  \<^verbatim>\<open>printf\<close> with \<^verbatim>\<open>%s\<close> on a buffer: it reads the cells of the buffer up to the first
  zero byte. A cell that was never written is indeterminate; past the last cell the read is
  outside the buffer.
\<close>

fun printf_s :: "cell list \<Rightarrow> fault + unit" where
  "printf_s [] = Inl OutOfBounds"
| "printf_s (None # bs) = Inl Indeterminate"
| "printf_s (Some b # bs) = (if b = 0 then Inr () else printf_s bs)"

text \<open>
  The part of \<^verbatim>\<open>yep_extract_data\<close> after the header was found: seek to the offset,
  allocate \<^verbatim>\<open>size + 1\<close> bytes (32-bit arithmetic), read \<^verbatim>\<open>size\<close> bytes, terminate a raw
  payload, print the buffer as a string, and for a compressed payload inflate it and print
  the inflated buffer as a string. The result is the buffer the returned pointer
  designates. The other calls of \<^verbatim>\<open>printf\<close> in \<^verbatim>\<open>yep_extract_data\<close> print numbers, the
  arguments, the cached path after a successful open, and the name buffer after
  \<^verbatim>\<open>strcmp\<close> found it equal to the handle, which all are readable.
\<close>

definition yep_extract_found ::
  "zlib \<Rightarrow> hdr_vars \<Rightarrow> stream \<Rightarrow> fault + (cell list \<times> stream)" where
  "yep_extract_found z v s =
     (case (cells_val (v_offset v), cells_val (v_size v), cells_val (v_compression_type v)) of
        (Some offset, Some size', Some compression_type) \<Rightarrow>
          let (got, s') = fread_cells (s\<lparr>s_pos := offset\<rparr>) size' [];
              room = unat ((of_nat size' :: u32) + 1)
          in if length got > room then Inl OutOfBounds
             else
               (case (if compression_type = unat YEP_COMPRESSION_NONE then
                        (if size' < room
                         then Inr ((overlay got (replicate room None))[size' := Some 0])
                         else Inl OutOfBounds)
                      else Inr (overlay got (replicate room None))) of
                  Inl e \<Rightarrow> Inl e
                | Inr data \<Rightarrow>
                    (case printf_s data of
                       Inl e \<Rightarrow> Inl e
                     | Inr u \<Rightarrow>
                         if compression_type = unat YEP_COMPRESSION_ZLIB then
                           (case (those (take size' data), cells_val (v_uncompressed_size v)) of
                              (Some input, Some uncompressed_size) \<Rightarrow>
                                (case decompress_data z input size' uncompressed_size of
                                   (res, Buffer decompressed_data) \<Rightarrow>
                                     if res \<noteq> 0 then Inl ProcessExit
                                     else
                                       (case printf_s decompressed_data of
                                          Inl e \<Rightarrow> Inl e
                                        | Inr u' \<Rightarrow> Inr (decompressed_data, s'))
                                 | (res, Unset) \<Rightarrow>
                                     if res \<noteq> 0 then Inl ProcessExit else Inl Indeterminate
                                 | (res, Released) \<Rightarrow>
                                     if res \<noteq> 0 then Inl ProcessExit else Inl UseAfterFree)
                            | _ \<Rightarrow> Inl Indeterminate)
                         else Inr (data, s')))
      | _ \<Rightarrow> Inl Indeterminate)"

text \<open>\<^verbatim>\<open>yep_extract_data\<close>: \<open>None\<close> is the null result.\<close>

definition yep_extract_data ::
  "yep_h \<Rightarrow> zlib \<Rightarrow> (bytes \<Rightarrow> bytes option) \<Rightarrow> yep_state \<Rightarrow> bytes \<Rightarrow> bytes
     \<Rightarrow> fault + (cell list option \<times> yep_state)" where
  "yep_extract_data h z fs st file handle =
     (case yep_open_file h fs st file of
        Inl e \<Rightarrow> Inl e
      | Inr (False, st1) \<Rightarrow> Inr (None, st1)
      | Inr (True, st1) \<Rightarrow>
          (case yep_seek_header st1 handle hdr_vars_uninit of
             Inl e \<Rightarrow> Inl e
           | Inr (False, v, st2) \<Rightarrow> Inr (None, st2)
           | Inr (True, v, st2) \<Rightarrow>
               (case yep_file st2 of
                  None \<Rightarrow> Inl NullStream
                | Some f \<Rightarrow>
                    (case open_files st2 f of
                       None \<Rightarrow> Inl UseAfterFree
                     | Some s \<Rightarrow>
                         (case yep_extract_found z v s of
                            Inl e \<Rightarrow> Inl e
                          | Inr (data, s') \<Rightarrow>
                              Inr (Some data, st2\<lparr>open_files := (open_files st2)(f := Some s')\<rparr>))))))"

section \<open>Walking the directory\<close>

text \<open>
  The directory to pack, as \<^verbatim>\<open>opendir\<close>, \<^verbatim>\<open>readdir\<close> and \<^verbatim>\<open>stat\<close> show it: a
  directory is the list of its entries in the order \<^verbatim>\<open>readdir\<close> returns them (the
  entries \<^verbatim>\<open>"."\<close> and \<^verbatim>\<open>".."\<close> may be among them), each with what \<^verbatim>\<open>stat\<close> finds at
  the entry's path: a regular file and its content, a directory, something else, or
  nothing (\<^verbatim>\<open>stat\<close> fails). Paths are shorter than \<^verbatim>\<open>PATH_MAX\<close>, so \<^verbatim>\<open>snprintf\<close>
  never truncates one.
\<close>

datatype node = Reg bytes | Dir "(bytes \<times> node) list" | Other | NoStat

text \<open>
  The structures of the missing \<^verbatim>\<open>yep.h\<close>, as \<^verbatim>\<open>yep.c\<close> uses them: a list node holds
  \<^verbatim>\<open>fullpath\<close>, the 64-byte array \<^verbatim>\<open>name\<close> and \<^verbatim>\<open>next\<close>; the pack list holds
  \<^verbatim>\<open>entry_count\<close> and \<^verbatim>\<open>head\<close>. The linked list is a list. The type of
  \<^verbatim>\<open>entry_count\<close> is not in the sources: it is a natural number here and is converted
  where the code assigns it to a \<^verbatim>\<open>uint16_t\<close> or a \<^verbatim>\<open>uint32_t\<close>.
\<close>

record yep_header_node =
  fullpath :: bytes
  name :: bytes

record yep_pack_list =
  entry_count :: nat
  head :: "yep_header_node list"

text \<open>The pack list of a process that has packed nothing yet (static storage).\<close>

definition yep_pack_list_init :: yep_pack_list where
  "yep_pack_list_init = \<lparr>entry_count = 0, head = []\<rparr>"

text \<open>
  \<^verbatim>\<open>_ye_walk_directory\<close>: the function on a directory, and its \<^verbatim>\<open>while\<close> loop on the
  entries that \<^verbatim>\<open>readdir\<close> has not returned yet. Byte 47 is \<^verbatim>\<open>'/'\<close>, byte 46 is
  \<^verbatim>\<open>'.'\<close>.
\<close>

fun ye_walk_directory :: "bytes \<Rightarrow> bytes \<Rightarrow> node \<Rightarrow> yep_pack_list \<Rightarrow> yep_pack_list"
  and walk_entries :: "bytes \<Rightarrow> bytes \<Rightarrow> (bytes \<times> node) list \<Rightarrow> yep_pack_list \<Rightarrow> yep_pack_list"
where
  "ye_walk_directory root_path directory_path (Dir es) pl =
     walk_entries root_path directory_path es pl"
| "ye_walk_directory root_path directory_path (Reg c) pl = pl"
| "ye_walk_directory root_path directory_path Other pl = pl"
| "ye_walk_directory root_path directory_path NoStat pl = pl"
| "walk_entries root_path directory_path [] pl = pl"
| "walk_entries root_path directory_path ((d_name, n) # es) pl =
     walk_entries root_path directory_path es
       (let full_path = directory_path @ [47] @ d_name
        in case n of
             NoStat \<Rightarrow> pl
           | Reg c \<Rightarrow>
               let relative_path = drop (length root_path + 1) full_path
               in if length relative_path + 1 > 64 then pl
                  else pl
                    \<lparr>head :=
                       \<lparr>fullpath = full_path,
                        name = relative_path @ replicate (64 - length relative_path) 0\<rparr>
                       # head pl,
                     entry_count := entry_count pl + 1\<rparr>
           | Dir sub \<Rightarrow>
               if d_name \<noteq> [46] \<and> d_name \<noteq> [46, 46]
               then ye_walk_directory root_path full_path n pl
               else pl
           | Other \<Rightarrow> pl)"

text \<open>
  The regular files a walk of a directory meets, each with its full path and content, in
  the order the walk meets them. This is the file system as \<^verbatim>\<open>fopen(fullpath, "rb")\<close>
  sees it when the pack file is written.
\<close>

fun reg_files :: "bytes \<Rightarrow> node \<Rightarrow> (bytes \<times> bytes) list"
  and reg_files_entries :: "bytes \<Rightarrow> (bytes \<times> node) list \<Rightarrow> (bytes \<times> bytes) list"
where
  "reg_files directory_path (Dir es) = reg_files_entries directory_path es"
| "reg_files directory_path (Reg c) = []"
| "reg_files directory_path Other = []"
| "reg_files directory_path NoStat = []"
| "reg_files_entries directory_path [] = []"
| "reg_files_entries directory_path ((d_name, n) # es) =
     (case n of
        Reg c \<Rightarrow> [(directory_path @ [47] @ d_name, c)]
      | Dir sub \<Rightarrow>
          if d_name \<noteq> [46] \<and> d_name \<noteq> [46, 46]
          then reg_files (directory_path @ [47] @ d_name) n
          else []
      | Other \<Rightarrow> []
      | NoStat \<Rightarrow> [])
     @ reg_files_entries directory_path es"

section \<open>Writing the archive\<close>

text \<open>
  A stream opened with \<^verbatim>\<open>"wb"\<close> starts empty. \<^verbatim>\<open>fwrite\<close> at a position replaces the
  bytes that are there and extends the file; beyond the end of the file the gap reads as
  zeros; a write of no bytes changes nothing.
\<close>

definition write_at :: "bytes \<Rightarrow> nat \<Rightarrow> bytes \<Rightarrow> bytes" where
  "write_at c p d =
     (if d = [] then c
      else take p c @ replicate (p - length c) 0 @ d @ drop (p + length d) c)"

definition fwrite :: "bytes \<Rightarrow> stream \<Rightarrow> stream" where
  "fwrite d s = \<lparr>s_data = write_at (s_data s) (s_pos s) d, s_pos = s_pos s + length d\<rparr>"

definition fseek :: "stream \<Rightarrow> nat \<Rightarrow> stream" where
  "fseek s p = s\<lparr>s_pos := p\<rparr>"

text \<open>\<^verbatim>\<open>get_file_size\<close>: the \<^verbatim>\<open>long\<close> that \<^verbatim>\<open>ftell\<close> returns is stored in a \<^verbatim>\<open>uint32_t\<close>.\<close>

definition get_file_size :: "bytes \<Rightarrow> u32" where
  "get_file_size content = of_nat (length content)"

definition read_file_data :: "bytes \<Rightarrow> u32 \<Rightarrow> bytes" where
  "read_file_data content size' = take (unat size') content"

definition write_data_to_pack :: "stream \<Rightarrow> u32 \<Rightarrow> bytes \<Rightarrow> u32 \<Rightarrow> stream" where
  "write_data_to_pack pack_file offset data size' =
     fwrite (take (unat size') data) (fseek pack_file (unat offset))"

text \<open>\<^verbatim>\<open>update_header\<close>: \<^verbatim>\<open>header_offset\<close> is an \<^verbatim>\<open>int\<close>.\<close>

definition update_header ::
  "stream \<Rightarrow> nat \<Rightarrow> u32 \<Rightarrow> u32 \<Rightarrow> byte \<Rightarrow> u32 \<Rightarrow> byte \<Rightarrow> fault + stream" where
  "update_header pack_file entry_index offset size' compression_type uncompressed_size data_type =
     (let header_start = 3;
          header_offset = header_start + entry_index * YEP_HEADER_SIZE_BYTES + 64
      in if header_offset \<ge> 2 ^ 31 then Inl SignedOverflow
         else Inr
           (fwrite [data_type]
             (fwrite (le_bytes 4 (unat uncompressed_size))
               (fwrite [compression_type]
                 (fwrite (le_bytes 4 (unat size'))
                   (fwrite (le_bytes 4 (unat offset))
                     (fseek pack_file header_offset)))))))"

text \<open>
  The body of the loop of \<^verbatim>\<open>write_pack_file\<close> from \<^verbatim>\<open>get_file_size\<close> to the end of the
  compression branch: the data to write, \<^verbatim>\<open>data_size\<close>, \<^verbatim>\<open>compression_type\<close> and
  \<^verbatim>\<open>uncompressed_size\<close>. The return value of \<^verbatim>\<open>compress_data\<close> is not looked at.
\<close>

definition pack_entry_data :: "zlib \<Rightarrow> bytes \<Rightarrow> fault + (bytes \<times> u32 \<times> byte \<times> u32)" where
  "pack_entry_data z content =
     (let data_size = get_file_size content;
          uncompressed_size = data_size;
          data = read_file_data content data_size;
          compression_type =
            (if data_size > 256 then YEP_COMPRESSION_ZLIB else YEP_COMPRESSION_NONE)
      in if compression_type = YEP_COMPRESSION_ZLIB then
           (case snd (compress_data z data (unat data_size)) of
              Unset \<Rightarrow> Inl Indeterminate
            | Released \<Rightarrow> Inl UseAfterFree
            | Buffer compressed_data \<Rightarrow>
                Inr (compressed_data, of_nat (length compressed_data), compression_type,
                     uncompressed_size))
         else Inr (data, data_size, compression_type, uncompressed_size))"

text \<open>The loop of \<^verbatim>\<open>write_pack_file\<close>, on the nodes from \<^verbatim>\<open>itr\<close> on.\<close>

fun write_pack_loop ::
  "yep_h \<Rightarrow> zlib \<Rightarrow> (bytes \<Rightarrow> bytes option) \<Rightarrow> yep_header_node list \<Rightarrow> nat \<Rightarrow> u32 \<Rightarrow> stream
     \<Rightarrow> fault + stream" where
  "write_pack_loop h z fs [] current_entry data_end pack_file = Inr pack_file"
| "write_pack_loop h z fs (itr # rest) current_entry data_end pack_file =
     (case fs (fullpath itr) of
        None \<Rightarrow> Inl ProcessExit
      | Some content \<Rightarrow>
          (case pack_entry_data z content of
             Inl e \<Rightarrow> Inl e
           | Inr (data, data_size, compression_type, uncompressed_size) \<Rightarrow>
               (case update_header (write_data_to_pack pack_file data_end data data_size)
                       current_entry data_end data_size compression_type uncompressed_size
                       (YEP_DATATYPE_MISC h) of
                  Inl e \<Rightarrow> Inl e
                | Inr pack_file' \<Rightarrow>
                    write_pack_loop h z fs rest (current_entry + 1) (data_end + data_size)
                      pack_file')))"

definition write_pack_file ::
  "yep_h \<Rightarrow> zlib \<Rightarrow> (bytes \<Rightarrow> bytes option) \<Rightarrow> yep_pack_list \<Rightarrow> stream \<Rightarrow> fault + stream" where
  "write_pack_file h z fs pl pack_file =
     (let data_start = of_nat (3 + entry_count pl * YEP_HEADER_SIZE_BYTES) :: u32;
          data_end = data_start
      in write_pack_loop h z fs (head pl) 0 data_end pack_file)"

text \<open>The loop of \<^verbatim>\<open>yep_pack_directory\<close> that writes one header per node.\<close>

fun write_headers :: "yep_header_node list \<Rightarrow> stream \<Rightarrow> stream" where
  "write_headers [] file = file"
| "write_headers (itr # rest) file =
     write_headers rest
       (fwrite [0]
         (fwrite (le_bytes 4 0)
           (fwrite [0]
             (fwrite (le_bytes 4 0)
               (fwrite (le_bytes 4 0)
                 (fwrite (take 64 (name itr)) file))))))"

text \<open>
  \<^verbatim>\<open>yep_pack_directory\<close>. \<open>tree\<close> is what is at \<^verbatim>\<open>directory_path\<close>; \<open>can_create\<close> tells
  whether \<^verbatim>\<open>fopen(output_name, "wb")\<close> succeeds; the output file is not one of the files
  being packed. The result is the return value, the content of the output file when it was
  created, and the pack list.
\<close>

definition yep_pack_directory ::
  "yep_h \<Rightarrow> zlib \<Rightarrow> node \<Rightarrow> bytes \<Rightarrow> bool \<Rightarrow> yep_pack_list
     \<Rightarrow> fault + (bool \<times> bytes option \<times> yep_pack_list)" where
  "yep_pack_directory h z tree directory_path can_create pl0 =
     (let pl = ye_walk_directory directory_path directory_path tree pl0
      in if \<not> can_create then Inr (False, None, pl)
         else
           let file0 = \<lparr>s_data = [], s_pos = 0\<rparr>;
               file1 = fwrite [YEP_CURRENT_FORMAT_VERSION h] file0;
               file2 = fwrite (le_bytes 2 (unat (of_nat (entry_count pl) :: u16))) file1;
               file3 = write_headers (head pl) file2
           in case write_pack_file h z (map_of (reg_files directory_path tree)) pl file3 of
                Inl e \<Rightarrow> Inl e
              | Inr file4 \<Rightarrow> Inr (True, Some (s_data file4), pl))"

section \<open>Reading a written archive\<close>

text \<open>
  The fields of entry record \<open>i\<close> of an archive, at the places where
  \<^verbatim>\<open>_yep_seek_header\<close> reads them: the record starts at byte \<open>3 + 78 * i\<close>.
\<close>

definition rec_name :: "bytes \<Rightarrow> nat \<Rightarrow> bytes" where
  "rec_name a i = take 64 (drop (3 + 78 * i) a)"

definition rec_offset :: "bytes \<Rightarrow> nat \<Rightarrow> nat" where
  "rec_offset a i = le_val (take 4 (drop (3 + 78 * i + 64) a))"

definition rec_size :: "bytes \<Rightarrow> nat \<Rightarrow> nat" where
  "rec_size a i = le_val (take 4 (drop (3 + 78 * i + 68) a))"

definition rec_compression :: "bytes \<Rightarrow> nat \<Rightarrow> nat" where
  "rec_compression a i = le_val (take 1 (drop (3 + 78 * i + 72) a))"

definition rec_uncompressed_size :: "bytes \<Rightarrow> nat \<Rightarrow> nat" where
  "rec_uncompressed_size a i = le_val (take 4 (drop (3 + 78 * i + 73) a))"

definition rec_data_type :: "bytes \<Rightarrow> nat \<Rightarrow> nat" where
  "rec_data_type a i = le_val (take 1 (drop (3 + 78 * i + 77) a))"

text \<open>The string a buffer holds: its bytes before the first zero byte.\<close>

definition c_string :: "bytes \<Rightarrow> bytes" where
  "c_string b = takeWhile (\<lambda>c. c \<noteq> 0) b"

text \<open>
  The variables of the lookup after the record at byte \<open>p\<close> of the archive was read in
  full, and the lengths of their object representations.
\<close>

definition vars_at :: "bytes \<Rightarrow> nat \<Rightarrow> hdr_vars" where
  "vars_at a p =
     \<lparr>v_name = map Some (take 64 (drop p a)),
      v_offset = map Some (take 4 (drop (p + 64) a)),
      v_size = map Some (take 4 (drop (p + 68) a)),
      v_compression_type = map Some (take 1 (drop (p + 72) a)),
      v_uncompressed_size = map Some (take 4 (drop (p + 73) a)),
      v_data_type = map Some (take 1 (drop (p + 77) a))\<rparr>"

definition vars_ok :: "hdr_vars \<Rightarrow> bool" where
  "vars_ok v = (length (v_name v) = 64 \<and> length (v_offset v) = 4 \<and> length (v_size v) = 4
     \<and> length (v_compression_type v) = 1 \<and> length (v_uncompressed_size v) = 4
     \<and> length (v_data_type v) = 1)"

section \<open>The layout of a written archive\<close>

text \<open>
  What the two phases of the writer leave in the output file, in closed form: for a node of
  the pack list, the payload bytes that \<^verbatim>\<open>write_data_to_pack\<close> writes for it and the 78
  bytes of its record once \<^verbatim>\<open>update_header\<close> has patched it; for a list of nodes, the
  records one after the other, each with the offset where its payload starts, and the
  payloads one after the other. \<open>skeleton\<close> is the record of a node as the first phase
  writes it.
\<close>

definition entry_stored :: "zlib \<Rightarrow> (bytes \<Rightarrow> bytes option) \<Rightarrow> yep_header_node \<Rightarrow> bytes" where
  "entry_stored z fs nd =
     (case fs (fullpath nd) of
        None \<Rightarrow> []
      | Some content \<Rightarrow>
          (case pack_entry_data z content of
             Inl e \<Rightarrow> []
           | Inr (data, data_size, compression_type, uncompressed_size) \<Rightarrow>
               take (unat data_size) data))"

definition entry_record ::
  "yep_h \<Rightarrow> zlib \<Rightarrow> (bytes \<Rightarrow> bytes option) \<Rightarrow> yep_header_node \<Rightarrow> nat \<Rightarrow> bytes" where
  "entry_record h z fs nd off =
     (case fs (fullpath nd) of
        None \<Rightarrow> []
      | Some content \<Rightarrow>
          (case pack_entry_data z content of
             Inl e \<Rightarrow> []
           | Inr (data, data_size, compression_type, uncompressed_size) \<Rightarrow>
               take 64 (name nd) @ le_bytes 4 off @ le_bytes 4 (unat data_size)
               @ [compression_type] @ le_bytes 4 (unat uncompressed_size)
               @ [YEP_DATATYPE_MISC h]))"

fun archive_records ::
  "yep_h \<Rightarrow> zlib \<Rightarrow> (bytes \<Rightarrow> bytes option) \<Rightarrow> yep_header_node list \<Rightarrow> nat \<Rightarrow> bytes" where
  "archive_records h z fs [] off = []"
| "archive_records h z fs (nd # nodes) off =
     entry_record h z fs nd off
     @ archive_records h z fs nodes (off + length (entry_stored z fs nd))"

definition archive_payloads ::
  "zlib \<Rightarrow> (bytes \<Rightarrow> bytes option) \<Rightarrow> yep_header_node list \<Rightarrow> bytes" where
  "archive_payloads z fs nodes = concat (map (entry_stored z fs) nodes)"

definition skeleton :: "yep_header_node list \<Rightarrow> bytes" where
  "skeleton nodes = concat (map (\<lambda>nd. take 64 (name nd) @ replicate 14 0) nodes)"

definition rec_bytes :: "bytes \<Rightarrow> nat \<Rightarrow> bytes" where
  "rec_bytes a i = take 78 (drop (3 + 78 * i) a)"

text \<open>
  Names for what the walk computes for a regular file: its path relative to the root (the
  full path without the root and one more byte), the 64-byte slot that holds such a path,
  the list node made for a full path, and whether the relative path with its terminator
  fits the slot.
\<close>

definition relative_path :: "bytes \<Rightarrow> bytes \<Rightarrow> bytes" where
  "relative_path root_path full_path = drop (length root_path + 1) full_path"

definition name_slot :: "bytes \<Rightarrow> bytes" where
  "name_slot rel = rel @ replicate (64 - length rel) 0"

definition pack_node :: "bytes \<Rightarrow> bytes \<Rightarrow> yep_header_node" where
  "pack_node root_path full_path =
     \<lparr>fullpath = full_path, name = name_slot (relative_path root_path full_path)\<rparr>"

definition fits_slot :: "bytes \<Rightarrow> bytes \<Rightarrow> bool" where
  "fits_slot root_path full_path = (length (relative_path root_path full_path) + 1 \<le> 64)"

text \<open>
  Two abbreviations used in the proofs: the pack list after the accepted ones of a list of
  files were prepended, and a node whose file can be opened and whose data the loop body
  can prepare.
\<close>

definition walked :: "bytes \<Rightarrow> (bytes \<times> bytes) list \<Rightarrow> yep_pack_list \<Rightarrow> yep_pack_list" where
  "walked root files pl =
     pl\<lparr>head := rev (map (pack_node root) (filter (fits_slot root) (map fst files))) @ head pl,
        entry_count := entry_count pl + length (filter (fits_slot root) (map fst files))\<rparr>"

definition node_ok :: "zlib \<Rightarrow> (bytes \<Rightarrow> bytes option) \<Rightarrow> yep_header_node \<Rightarrow> bool" where
  "node_ok z fs nd =
     (\<exists>c data ds ct us. fs (fullpath nd) = Some c \<and> pack_entry_data z c = Inr (data, ds, ct, us))"




section \<open>Example inputs\<close>

text \<open>
  Concrete inputs on which the theorems below are instantiated: a header with format
  version 1, a file system with two empty archives of that version (\<^verbatim>\<open>"a"\<close>,
  \<^verbatim>\<open>"b"\<close>) and one archive of version 2 that announces five entries (\<^verbatim>\<open>"c"\<close>), and a
  codec that stores its input behind one zero byte.
\<close>

definition ex_h :: yep_h where
  "ex_h = \<lparr>YEP_CURRENT_FORMAT_VERSION = 1, YEP_DATATYPE_MISC = 0\<rparr>"

definition ex_fs :: "bytes \<Rightarrow> bytes option" where
  "ex_fs p =
     (if p = [97] then Some [1, 0, 0]
      else if p = [98] then Some [1, 0, 0]
      else if p = [99] then Some [2, 5, 0]
      else None)"

definition ex_zlib :: zlib where
  "ex_zlib =
     \<lparr>deflateInit = 0,
      deflate = (\<lambda>input avail_out.
        if length input < avail_out then (1, 0 # input) else (0, take avail_out (0 # input))),
      inflateInit = 0,
      inflate = (\<lambda>input avail_out.
        case input of
          [] \<Rightarrow> (- 5, [])
        | b # d \<Rightarrow> if b = 0 \<and> length d \<le> avail_out then (1, d) else (- 5, take avail_out d))\<rparr>"

text \<open>
  The archive that packing a directory with the one file \<^verbatim>\<open>"a"\<close> of content \<open>[1, 2]\<close>
  gives, stored as \<^verbatim>\<open>"o"\<close>, and the state after it was opened.
\<close>

definition ex_archive1 :: bytes where
  "ex_archive1 =
     [1, 1, 0] @ (97 # replicate 63 0) @ [81, 0, 0, 0] @ [2, 0, 0, 0] @ [0] @ [2, 0, 0, 0] @ [0]
     @ [1, 2]"

definition ex_fs1 :: "bytes \<Rightarrow> bytes option" where
  "ex_fs1 p = (if p = [111] then Some ex_archive1 else None)"

definition ex_st1 :: yep_state where
  "ex_st1 =
     \<lparr>yep_file_path = Valid [111], yep_file = Some 0, file_entry_count = 1,
      file_version_number = 1,
      open_files = (\<lambda>h. None)(0 := Some \<lparr>s_data = ex_archive1, s_pos = 3\<rparr>),
      next_file = 1\<rparr>"

text \<open>
  A directory \<^verbatim>\<open>"d"\<close> with the entries \<^verbatim>\<open>"."\<close>, \<^verbatim>\<open>".."\<close>, the file \<^verbatim>\<open>"a"\<close> of two
  bytes, the directory \<^verbatim>\<open>"s"\<close> with the file \<^verbatim>\<open>"b"\<close> of 300 bytes, and a file of one byte
  whose name has 70 bytes; the pack list of its walk; and its archive.
\<close>

definition ex_tree2 :: node where
  "ex_tree2 =
     Dir [([46], Dir []), ([46, 46], Dir []), ([97], Reg [1, 2]),
          ([115], Dir [([98], Reg (replicate 300 7))]),
          (replicate 70 120, Reg [9])]"

definition ex_pl2 :: yep_pack_list where
  "ex_pl2 =
     \<lparr>entry_count = 2,
      head = [\<lparr>fullpath = [100, 47, 115, 47, 98], name = [115, 47, 98] @ replicate 61 0\<rparr>,
              \<lparr>fullpath = [100, 47, 97], name = [97] @ replicate 63 0\<rparr>]\<rparr>"

definition ex_archive2 :: bytes where
  "ex_archive2 =
     [1, 2, 0]
     @ ([115, 47, 98] @ replicate 61 0) @ [159, 0, 0, 0] @ [45, 1, 0, 0] @ [1] @ [44, 1, 0, 0] @ [0]
     @ ([97] @ replicate 63 0) @ [204, 1, 0, 0] @ [2, 0, 0, 0] @ [0] @ [2, 0, 0, 0] @ [0]
     @ (0 # replicate 300 7)
     @ [1, 2]"

text \<open>
  A directory \<^verbatim>\<open>"d"\<close> whose one file \<^verbatim>\<open>"a"\<close> has \<open>2 ^ 32 = 4294967296\<close> bytes, its archive, stored as
  \<^verbatim>\<open>"o"\<close>, and the state after that archive was opened. The pack list of its walk is the
  one of a directory with the file \<^verbatim>\<open>"a"\<close> alone.
\<close>

definition ex_tree_big :: node where
  "ex_tree_big = Dir [([97], Reg (replicate 4294967296 0))]"

definition ex_pl1 :: yep_pack_list where
  "ex_pl1 =
     \<lparr>entry_count = 1, head = [\<lparr>fullpath = [100, 47, 97], name = [97] @ replicate 63 0\<rparr>]\<rparr>"

definition ex_archive_big :: bytes where
  "ex_archive_big =
     [1, 1, 0]
     @ ([97] @ replicate 63 0) @ [81, 0, 0, 0] @ [0, 0, 0, 0] @ [0] @ [0, 0, 0, 0] @ [0]"







section \<open>Basic facts\<close>

lemma length_le_bytes: "length (le_bytes n v) = n"
  by (induction n arbitrary: v) simp_all

lemma le_val_le_bytes: "v < 256 ^ n \<Longrightarrow> le_val (le_bytes n v) = v"
proof (induction n arbitrary: v)
  case 0
  then show ?case by simp
next
  case (Suc n)
  have "v div 256 < 256 ^ n"
    using Suc.prems by (simp add: less_mult_imp_div_less mult.commute)
  then have "le_val (le_bytes n (v div 256)) = v div 256"
    by (rule Suc.IH)
  moreover have "unat (of_nat (v mod 256) :: byte) = v mod 256"
    by (simp add: unat_of_nat)
  ultimately show ?case by simp
qed

lemma le_bytes_1: "le_bytes (Suc 0) v = [of_nat (v mod 256)]"
  by simp

lemma le_bytes_2: "le_bytes 2 v = [of_nat (v mod 256), of_nat (v div 256 mod 256)]"
proof -
  have "(2::nat) = Suc (Suc 0)" by simp
  then show ?thesis by (simp only: le_bytes.simps)
qed

lemma le_bytes_4:
  "le_bytes 4 v =
     [of_nat (v mod 256), of_nat (v div 256 mod 256), of_nat (v div 256 div 256 mod 256),
      of_nat (v div 256 div 256 div 256 mod 256)]"
proof -
  have "(4::nat) = Suc (Suc (Suc (Suc 0)))" by simp
  then show ?thesis by (simp only: le_bytes.simps)
qed

section \<open>The open-archive cache: what a failed open leaves behind\<close>

lemma open_reuse: "yep_file_path st = Valid file \<Longrightarrow> yep_open_file h fs st file = Inr (True, st)"
  by (simp add: yep_open_file_def)

lemma open_True_path:
  "yep_open_file h fs st file = Inr (True, st1) \<Longrightarrow> yep_file_path st1 = Valid file"
  unfolding yep_open_file_def Let_def
  by (cases "yep_file_path st = Freed"; cases "yep_file_path st = Valid file"; cases "fs file"; auto)

lemma open_missing:
  "yep_file_path st = Valid A \<Longrightarrow> B \<noteq> A \<Longrightarrow> fs B = None \<Longrightarrow>
   yep_open_file h fs st B = Inr (False, st\<lparr>yep_file := None\<rparr>)"
  by (simp add: yep_open_file_def)

lemma seek_null: "yep_file st = None \<Longrightarrow> yep_seek_header st handle v = Inl NullStream"
  by (simp add: yep_seek_header_def)

text \<open>
  Claim C10. After a successful open of \<open>A\<close>, an open of another path \<open>B\<close> that cannot be
  opened returns false, keeps \<open>A\<close> as the cached path and stores the null handle; the next
  open of \<open>A\<close> then returns true by the same-path check and changes nothing (no stream is
  opened), so the subsystem holds path \<open>A\<close> and the null handle, and an extraction from
  \<open>A\<close> passes the open check and calls \<^verbatim>\<open>fseek\<close> on the null stream.
\<close>

theorem failed_open_keeps_path_drops_handle:
  assumes "yep_open_file h fs st0 A = Inr (True, st1)" and "B \<noteq> A" and "fs B = None"
  shows "yep_open_file h fs st1 B = Inr (False, st1\<lparr>yep_file := None\<rparr>)
     \<and> yep_file_path (st1\<lparr>yep_file := None\<rparr>) = Valid A
     \<and> yep_file (st1\<lparr>yep_file := None\<rparr>) = None
     \<and> yep_open_file h fs (st1\<lparr>yep_file := None\<rparr>) A = Inr (True, st1\<lparr>yep_file := None\<rparr>)
     \<and> yep_extract_data h z fs (st1\<lparr>yep_file := None\<rparr>) A handle = Inl NullStream"
proof -
  have p: "yep_file_path st1 = Valid A"
    using assms(1) by (rule open_True_path)
  have 1: "yep_open_file h fs st1 B = Inr (False, st1\<lparr>yep_file := None\<rparr>)"
    using p assms(2,3) by (rule open_missing)
  have 2: "yep_open_file h fs (st1\<lparr>yep_file := None\<rparr>) A = Inr (True, st1\<lparr>yep_file := None\<rparr>)"
    using p by (simp add: open_reuse)
  have 3: "yep_extract_data h z fs (st1\<lparr>yep_file := None\<rparr>) A handle = Inl NullStream"
    by (simp add: yep_extract_data_def 2 seek_null)
  show ?thesis using p 1 2 3 by simp
qed

lemma ex_open_a:
  "yep_open_file ex_h ex_fs yep_state_init [97] =
     Inr (True,
       \<lparr>yep_file_path = Valid [97], yep_file = Some 0, file_entry_count = 0,
        file_version_number = 1,
        open_files = (\<lambda>h. None)(0 := Some \<lparr>s_data = [1, 0, 0], s_pos = 3\<rparr>),
        next_file = 1\<rparr>)"
  by (simp add: yep_open_file_def ex_h_def ex_fs_def yep_state_init_def overlay_def Let_def
      le_bytes_2 numeral_3_eq_3)

theorem failed_open_keeps_path_drops_handle_witness:
  "yep_open_file ex_h ex_fs
     \<lparr>yep_file_path = Valid [97], yep_file = None, file_entry_count = 0,
      file_version_number = 1,
      open_files = (\<lambda>h. None)(0 := Some \<lparr>s_data = [1, 0, 0], s_pos = 3\<rparr>),
      next_file = 1\<rparr> [97]
   = Inr (True,
     \<lparr>yep_file_path = Valid [97], yep_file = None, file_entry_count = 0,
      file_version_number = 1,
      open_files = (\<lambda>h. None)(0 := Some \<lparr>s_data = [1, 0, 0], s_pos = 3\<rparr>),
      next_file = 1\<rparr>)
   \<and> yep_extract_data ex_h ex_zlib ex_fs
     \<lparr>yep_file_path = Valid [97], yep_file = None, file_entry_count = 0,
      file_version_number = 1,
      open_files = (\<lambda>h. None)(0 := Some \<lparr>s_data = [1, 0, 0], s_pos = 3\<rparr>),
      next_file = 1\<rparr> [97] [120] = Inl NullStream"
proof -
  have ne: "[100] \<noteq> [97::byte]" by simp
  have missing: "ex_fs [100] = None" by (simp add: ex_fs_def)
  show ?thesis
    using failed_open_keeps_path_drops_handle [OF ex_open_a ne missing, of ex_zlib "[120]"]
    by simp
qed

text \<open>
  Claim C3, evaluated on the code. The archive \<^verbatim>\<open>"c"\<close> has version 2 where version 1 is
  supported. The open returns false, and afterwards the stream is still open, the path is
  cached, and the entry count and the version read from the file are kept; a second open of
  the same path returns true.
\<close>

theorem version_mismatch_open_keeps_state:
  "yep_open_file ex_h ex_fs yep_state_init [99] =
     Inr (False,
       \<lparr>yep_file_path = Valid [99], yep_file = Some 0, file_entry_count = 5,
        file_version_number = 2,
        open_files = (\<lambda>h. None)(0 := Some \<lparr>s_data = [2, 5, 0], s_pos = 3\<rparr>),
        next_file = 1\<rparr>)
   \<and> yep_open_file ex_h ex_fs
       \<lparr>yep_file_path = Valid [99], yep_file = Some 0, file_entry_count = 5,
        file_version_number = 2,
        open_files = (\<lambda>h. None)(0 := Some \<lparr>s_data = [2, 5, 0], s_pos = 3\<rparr>),
        next_file = 1\<rparr> [99]
     = Inr (True,
       \<lparr>yep_file_path = Valid [99], yep_file = Some 0, file_entry_count = 5,
        file_version_number = 2,
        open_files = (\<lambda>h. None)(0 := Some \<lparr>s_data = [2, 5, 0], s_pos = 3\<rparr>),
        next_file = 1\<rparr>)"
  by (simp add: yep_open_file_def ex_h_def ex_fs_def yep_state_init_def overlay_def Let_def
      le_bytes_2 numeral_3_eq_3)

text \<open>
  Claim C4, evaluated on the code. After an open of \<^verbatim>\<open>"a"\<close>, an open of \<^verbatim>\<open>"b"\<close> stores
  the new stream in \<^verbatim>\<open>yep_file\<close> and leaves the stream of \<^verbatim>\<open>"a"\<close> open: two streams are
  open, and no variable holds the first one any more. After a close, the freed path is
  compared by the next open.
\<close>

theorem open_other_path_leaves_old_stream_open:
  "yep_open_file ex_h ex_fs
     \<lparr>yep_file_path = Valid [97], yep_file = Some 0, file_entry_count = 0,
      file_version_number = 1,
      open_files = (\<lambda>h. None)(0 := Some \<lparr>s_data = [1, 0, 0], s_pos = 3\<rparr>),
      next_file = 1\<rparr> [98]
   = Inr (True,
     \<lparr>yep_file_path = Valid [98], yep_file = Some 1, file_entry_count = 0,
      file_version_number = 1,
      open_files = (\<lambda>h. None)
        (0 := Some \<lparr>s_data = [1, 0, 0], s_pos = 3\<rparr>,
         1 := Some \<lparr>s_data = [1, 0, 0], s_pos = 3\<rparr>),
      next_file = 2\<rparr>)
   \<and> yep_close_file
     \<lparr>yep_file_path = Valid [97], yep_file = Some 0, file_entry_count = 0,
      file_version_number = 1,
      open_files = (\<lambda>h. None)(0 := Some \<lparr>s_data = [1, 0, 0], s_pos = 3\<rparr>),
      next_file = 1\<rparr>
   = Inr
     \<lparr>yep_file_path = Freed, yep_file = None, file_entry_count = 0,
      file_version_number = 0,
      open_files = (\<lambda>h. None),
      next_file = 1\<rparr>
   \<and> yep_open_file ex_h ex_fs
     \<lparr>yep_file_path = Freed, yep_file = None, file_entry_count = 0,
      file_version_number = 0,
      open_files = (\<lambda>h. None),
      next_file = 1\<rparr> [97]
   = Inl UseAfterFree"
  by (simp add: yep_open_file_def yep_close_file_def ex_h_def ex_fs_def overlay_def Let_def
      le_bytes_2 numeral_3_eq_3 numeral_2_eq_2 fun_eq_iff)

section \<open>Decompression\<close>

text \<open>
  Claim C9. \<^verbatim>\<open>decompress_data\<close> returns a nonzero code (always -1) exactly when
  \<^verbatim>\<open>inflateInit\<close> fails, \<^verbatim>\<open>inflate\<close> does not return \<^verbatim>\<open>Z_STREAM_END\<close>, or the
  number of bytes produced differs from the expected size. The buffer handed to
  \<^verbatim>\<open>inflate\<close> has the expected size, and on success it holds exactly the bytes
  \<^verbatim>\<open>inflate\<close> produced, as many as expected.
\<close>

theorem decompress_data_error_iff:
  "(fst (decompress_data z input n m) \<noteq> 0) =
     (inflateInit z \<noteq> Z_OK
      \<or> fst (inflate z (take (n mod 2 ^ 32) input) (m mod 2 ^ 32)) \<noteq> Z_STREAM_END
      \<or> length (snd (inflate z (take (n mod 2 ^ 32) input) (m mod 2 ^ 32))) \<noteq> m)
   \<and> (fst (decompress_data z input n m) = 0 \<or> fst (decompress_data z input n m) = - 1)
   \<and> (fst (decompress_data z input n m) = 0 \<longrightarrow>
        snd (decompress_data z input n m) =
          Buffer (map Some (snd (inflate z (take (n mod 2 ^ 32) input) (m mod 2 ^ 32))))
        \<and> length (snd (inflate z (take (n mod 2 ^ 32) input) (m mod 2 ^ 32))) = m)
   \<and> (\<forall>buf. snd (decompress_data z input n m) = Buffer buf
        \<and> length (snd (inflate z (take (n mod 2 ^ 32) input) (m mod 2 ^ 32))) \<le> m
        \<longrightarrow> length buf = m)"
  by (auto simp: decompress_data_def Let_def overlay_def split: prod.splits)

theorem decompress_data_error_iff_witness:
  "fst (decompress_data ex_zlib [0, 7, 8] 3 2) = 0
   \<and> snd (decompress_data ex_zlib [0, 7, 8] 3 2) = Buffer [Some 7, Some 8]
   \<and> fst (decompress_data ex_zlib [0, 7, 8] 3 5) = - 1"
  using decompress_data_error_iff [of ex_zlib "[0, 7, 8]" 3 2]
    decompress_data_error_iff [of ex_zlib "[0, 7, 8]" 3 5]
  by (simp add: ex_zlib_def Z_OK_def Z_STREAM_END_def decompress_data_def overlay_def)

section \<open>Looking an entry up\<close>

lemma overlay_full: "length old \<le> length got \<Longrightarrow> overlay got old = got"
  by (simp add: overlay_def)

lemma fread_cells_full:
  "s_pos s + n \<le> length (s_data s) \<Longrightarrow> length dst \<le> n \<Longrightarrow>
   fread_cells s n dst = (map Some (take n (drop (s_pos s) (s_data s))), s\<lparr>s_pos := s_pos s + n\<rparr>)"
  by (simp add: fread_cells_def Let_def overlay_full)

lemma strcmp_eq_terminated:
  "0 \<in> set slot \<Longrightarrow> strcmp_eq handle (map Some slot) = Inr (c_string handle = c_string slot)"
proof (induction slot arbitrary: handle)
  case Nil
  then show ?case by simp
next
  case (Cons b bs)
  show ?case
  proof (cases handle)
    case Nil
    then show ?thesis by (auto simp: c_string_def)
  next
    case (Cons c cs)
    show ?thesis
    proof (cases "c = 0")
      case True
      then show ?thesis using Cons by (auto simp: c_string_def)
    next
      case False
      show ?thesis
      proof (cases "b = c")
        case True
        then have "0 \<in> set bs" using Cons.prems False by auto
        then have "strcmp_eq cs (map Some bs) = Inr (c_string cs = c_string bs)"
          by (rule Cons.IH)
        then show ?thesis using Cons True False by (simp add: c_string_def)
      next
        case ne: False
        then show ?thesis using Cons False by (auto simp: c_string_def)
      qed
    qed
  qed
qed

lemma vars_ok_uninit: "vars_ok hdr_vars_uninit"
  by (simp add: vars_ok_def hdr_vars_uninit_def)

lemma seek_loop_step_at:
  assumes "vars_ok v" and "s_pos s = p" and "p + 78 \<le> length (s_data s)"
  shows "seek_loop handle (Suc n) v s =
     (case strcmp_eq handle (map Some (take 64 (drop p (s_data s)))) of
        Inl e \<Rightarrow> Inl e
      | Inr True \<Rightarrow> Inr (True, vars_at (s_data s) p, s\<lparr>s_pos := p + 78\<rparr>)
      | Inr False \<Rightarrow> seek_loop handle n (vars_at (s_data s) p) (s\<lparr>s_pos := p + 78\<rparr>))"
proof -
  have 1: "fread_cells s 64 (v_name v) = (map Some (take 64 (drop p (s_data s))), s\<lparr>s_pos := p + 64\<rparr>)"
    using assms by (simp add: fread_cells_full vars_ok_def)
  have 2: "fread_cells (s\<lparr>s_pos := p + 64\<rparr>) 4 (v_offset v) =
      (map Some (take 4 (drop (p + 64) (s_data s))), s\<lparr>s_pos := p + 68\<rparr>)"
    using assms by (simp add: fread_cells_full vars_ok_def)
  have 3: "fread_cells (s\<lparr>s_pos := p + 68\<rparr>) 4 (v_size v) =
      (map Some (take 4 (drop (p + 68) (s_data s))), s\<lparr>s_pos := p + 72\<rparr>)"
    using assms by (simp add: fread_cells_full vars_ok_def)
  have 4: "fread_cells (s\<lparr>s_pos := p + 72\<rparr>) (Suc 0) (v_compression_type v) =
      (map Some (take (Suc 0) (drop (p + 72) (s_data s))), s\<lparr>s_pos := p + 73\<rparr>)"
    using assms by (simp add: fread_cells_full vars_ok_def)
  have 5: "fread_cells (s\<lparr>s_pos := p + 73\<rparr>) 4 (v_uncompressed_size v) =
      (map Some (take 4 (drop (p + 73) (s_data s))), s\<lparr>s_pos := p + 77\<rparr>)"
    using assms by (simp add: fread_cells_full vars_ok_def)
  have 6: "fread_cells (s\<lparr>s_pos := p + 77\<rparr>) (Suc 0) (v_data_type v) =
      (map Some (take (Suc 0) (drop (p + 77) (s_data s))), s\<lparr>s_pos := p + 78\<rparr>)"
    using assms by (simp add: fread_cells_full vars_ok_def)
  show ?thesis
    by (simp add: 1 2 3 4 5 6 Let_def vars_at_def split: sum.split bool.split del: map_map)
qed

lemma vars_ok_vars_at: "p + 78 \<le> length a \<Longrightarrow> vars_ok (vars_at a p)"
  by (simp add: vars_ok_def vars_at_def)

lemma seek_loop_no_match:
  assumes "vars_ok v" and "s_pos s = 3 + 78 * i" and "3 + 78 * (i + n) \<le> length (s_data s)"
    and "\<forall>j. i \<le> j \<and> j < i + n \<longrightarrow>
           0 \<in> set (rec_name (s_data s) j) \<and> c_string (rec_name (s_data s) j) \<noteq> c_string handle"
  shows "\<exists>v'. seek_loop handle n v s = Inr (False, v', s\<lparr>s_pos := 3 + 78 * (i + n)\<rparr>)"
  using assms
proof (induction n arbitrary: v s i)
  case 0
  then show ?case by simp
next
  case (Suc n)
  let ?a = "s_data s"
  let ?s' = "s\<lparr>s_pos := 3 + 78 * i + 78\<rparr>"
  have len: "3 + 78 * i + 78 \<le> length ?a" using Suc.prems(3) by simp
  have slot: "0 \<in> set (rec_name ?a i)" "c_string (rec_name ?a i) \<noteq> c_string handle"
    using Suc.prems(4) by auto
  have cmp: "strcmp_eq handle (map Some (take 64 (drop (3 + 78 * i) ?a))) = Inr False"
    using slot strcmp_eq_terminated [of "rec_name ?a i" handle] by (auto simp: rec_name_def)
  have step: "seek_loop handle (Suc n) v s = seek_loop handle n (vars_at ?a (3 + 78 * i)) ?s'"
    using seek_loop_step_at [OF Suc.prems(1) Suc.prems(2) len, of handle n] cmp by simp
  have ok: "vars_ok (vars_at ?a (3 + 78 * i))" using len by (rule vars_ok_vars_at)
  have "\<exists>v'. seek_loop handle n (vars_at ?a (3 + 78 * i)) ?s' = Inr (False, v', ?s'\<lparr>s_pos := 3 + 78 * (Suc i + n)\<rparr>)"
  proof (rule Suc.IH [OF ok])
    show "s_pos ?s' = 3 + 78 * Suc i" by simp
    show "3 + 78 * (Suc i + n) \<le> length (s_data ?s')" using Suc.prems(3) by simp
    show "\<forall>j. Suc i \<le> j \<and> j < Suc i + n \<longrightarrow>
        0 \<in> set (rec_name (s_data ?s') j) \<and> c_string (rec_name (s_data ?s') j) \<noteq> c_string handle"
      using Suc.prems(4) by simp
  qed
  then show ?case using step by simp
qed

lemma seek_loop_first_match:
  assumes "vars_ok v" and "s_pos s = 3 + 78 * i" and "3 + 78 * Suc j \<le> length (s_data s)"
    and "i \<le> j" and "j < i + n"
    and "\<forall>k. i \<le> k \<and> k < j \<longrightarrow>
           0 \<in> set (rec_name (s_data s) k) \<and> c_string (rec_name (s_data s) k) \<noteq> c_string handle"
    and "0 \<in> set (rec_name (s_data s) j)" and "c_string (rec_name (s_data s) j) = c_string handle"
  shows "seek_loop handle n v s = Inr (True, vars_at (s_data s) (3 + 78 * j), s\<lparr>s_pos := 3 + 78 * Suc j\<rparr>)"
  using assms
proof (induction n arbitrary: v s i)
  case 0
  then show ?case by simp
next
  case (Suc n)
  let ?a = "s_data s"
  let ?s' = "s\<lparr>s_pos := 3 + 78 * i + 78\<rparr>"
  have len: "3 + 78 * i + 78 \<le> length ?a" using Suc.prems(3,4) by simp
  note step = seek_loop_step_at [OF Suc.prems(1) Suc.prems(2) len, of handle n]
  show ?case
  proof (cases "i = j")
    case True
    have cmp: "strcmp_eq handle (map Some (take 64 (drop (3 + 78 * i) ?a))) = Inr True"
      using Suc.prems(7,8) True strcmp_eq_terminated [of "rec_name ?a i" handle]
      by (auto simp: rec_name_def)
    show ?thesis using step cmp True by simp
  next
    case False
    then have lt: "i < j" using Suc.prems(4) by simp
    have slot: "0 \<in> set (rec_name ?a i)" "c_string (rec_name ?a i) \<noteq> c_string handle"
      using Suc.prems(6) lt by auto
    have cmp: "strcmp_eq handle (map Some (take 64 (drop (3 + 78 * i) ?a))) = Inr False"
      using slot strcmp_eq_terminated [of "rec_name ?a i" handle] by (auto simp: rec_name_def)
    have st: "seek_loop handle (Suc n) v s = seek_loop handle n (vars_at ?a (3 + 78 * i)) ?s'"
      using step cmp by simp
    have ok: "vars_ok (vars_at ?a (3 + 78 * i))" using len by (rule vars_ok_vars_at)
    have "seek_loop handle n (vars_at ?a (3 + 78 * i)) ?s' =
        Inr (True, vars_at (s_data ?s') (3 + 78 * j), ?s'\<lparr>s_pos := 3 + 78 * Suc j\<rparr>)"
    proof (rule Suc.IH [OF ok])
      show "s_pos ?s' = 3 + 78 * Suc i" by simp
      show "3 + 78 * Suc j \<le> length (s_data ?s')" using Suc.prems(3) by simp
      show "Suc i \<le> j" using lt by simp
      show "j < Suc i + n" using Suc.prems(5) by simp
      show "\<forall>k. Suc i \<le> k \<and> k < j \<longrightarrow>
          0 \<in> set (rec_name (s_data ?s') k) \<and> c_string (rec_name (s_data ?s') k) \<noteq> c_string handle"
        using Suc.prems(6) by simp
      show "0 \<in> set (rec_name (s_data ?s') j)" using Suc.prems(7) by simp
      show "c_string (rec_name (s_data ?s') j) = c_string handle" using Suc.prems(8) by simp
    qed
    then show ?thesis using st by simp
  qed
qed


lemma seek_header_open:
  assumes "yep_file st1 = Some f" and "open_files st1 f = Some s"
  shows "yep_seek_header st1 handle v =
     (case seek_loop handle (unat (file_entry_count st1)) v (s\<lparr>s_pos := 3\<rparr>) of
        Inl e \<Rightarrow> Inl e
      | Inr (found, v', s') \<Rightarrow>
          Inr (found, v', st1\<lparr>open_files := (open_files st1)(f := Some s')\<rparr>))"
  using assms by (simp add: yep_seek_header_def)


text \<open>
  Claim C7. For an archive that is open (the open returned true and \<^verbatim>\<open>yep_file\<close> is a
  stream on the archive's bytes) and holds all the records its entry count announces: when
  the requested name differs from the name in every one of the \<open>entry_count\<close> slots, the
  extraction returns the null result, the stream stands behind the last record (all
  \<open>entry_count\<close> records were read, in storage order), and the archive stays open with its
  cached state as it was. When record \<open>j\<close> is the first that holds the requested name, the
  lookup returns found with the fields of record \<open>j\<close> and the stream stands right behind
  record \<open>j\<close>. The name in a slot is the string before its first zero byte.
\<close>

theorem lookup_scans_all_then_first_match:
  assumes "yep_open_file h fs st file = Inr (True, st1)"
    and "yep_file st1 = Some f" and "open_files st1 f = Some s"
  shows
    "(3 + 78 * unat (file_entry_count st1) \<le> length (s_data s)
      \<and> (\<forall>i. i < unat (file_entry_count st1) \<longrightarrow>
            0 \<in> set (rec_name (s_data s) i)
            \<and> c_string (rec_name (s_data s) i) \<noteq> c_string handle)
      \<longrightarrow> yep_extract_data h z fs st file handle =
            Inr (None, st1\<lparr>open_files := (open_files st1)
                   (f := Some (s\<lparr>s_pos := 3 + 78 * unat (file_entry_count st1)\<rparr>))\<rparr>))
     \<and> (\<forall>j. j < unat (file_entry_count st1) \<and> 3 + 78 * Suc j \<le> length (s_data s)
            \<and> (\<forall>k. k < j \<longrightarrow>
                  0 \<in> set (rec_name (s_data s) k)
                  \<and> c_string (rec_name (s_data s) k) \<noteq> c_string handle)
            \<and> 0 \<in> set (rec_name (s_data s) j)
            \<and> c_string (rec_name (s_data s) j) = c_string handle
      \<longrightarrow> yep_seek_header st1 handle hdr_vars_uninit =
            Inr (True, vars_at (s_data s) (3 + 78 * j),
                 st1\<lparr>open_files := (open_files st1)(f := Some (s\<lparr>s_pos := 3 + 78 * Suc j\<rparr>))\<rparr>))"
proof (intro conjI impI allI)
  let ?n = "unat (file_entry_count st1)"
  let ?s3 = "s\<lparr>s_pos := 3\<rparr>"
  assume a: "3 + 78 * ?n \<le> length (s_data s)
      \<and> (\<forall>i. i < ?n \<longrightarrow>
            0 \<in> set (rec_name (s_data s) i)
            \<and> c_string (rec_name (s_data s) i) \<noteq> c_string handle)"
  have "\<exists>v'. seek_loop handle ?n hdr_vars_uninit ?s3 = Inr (False, v', ?s3\<lparr>s_pos := 3 + 78 * (0 + ?n)\<rparr>)"
    using a by (intro seek_loop_no_match vars_ok_uninit) simp_all
  then obtain v' where
    "seek_loop handle ?n hdr_vars_uninit ?s3 = Inr (False, v', s\<lparr>s_pos := 3 + 78 * ?n\<rparr>)"
    by auto
  then have "yep_seek_header st1 handle hdr_vars_uninit =
      Inr (False, v', st1\<lparr>open_files := (open_files st1)(f := Some (s\<lparr>s_pos := 3 + 78 * ?n\<rparr>))\<rparr>)"
    by (simp add: seek_header_open [OF assms(2,3)])
  then show "yep_extract_data h z fs st file handle =
      Inr (None, st1\<lparr>open_files := (open_files st1)(f := Some (s\<lparr>s_pos := 3 + 78 * ?n\<rparr>))\<rparr>)"
    by (simp add: yep_extract_data_def assms(1))
next
  fix j
  let ?n = "unat (file_entry_count st1)"
  let ?s3 = "s\<lparr>s_pos := 3\<rparr>"
  assume a: "j < ?n \<and> 3 + 78 * Suc j \<le> length (s_data s)
            \<and> (\<forall>k. k < j \<longrightarrow>
                  0 \<in> set (rec_name (s_data s) k)
                  \<and> c_string (rec_name (s_data s) k) \<noteq> c_string handle)
            \<and> 0 \<in> set (rec_name (s_data s) j)
            \<and> c_string (rec_name (s_data s) j) = c_string handle"
  have "seek_loop handle ?n hdr_vars_uninit ?s3 =
      Inr (True, vars_at (s_data ?s3) (3 + 78 * j), ?s3\<lparr>s_pos := 3 + 78 * Suc j\<rparr>)"
    using a by (intro seek_loop_first_match [where i = 0] vars_ok_uninit) simp_all
  then show "yep_seek_header st1 handle hdr_vars_uninit =
      Inr (True, vars_at (s_data s) (3 + 78 * j),
           st1\<lparr>open_files := (open_files st1)(f := Some (s\<lparr>s_pos := 3 + 78 * Suc j\<rparr>))\<rparr>)"
    by (simp add: seek_header_open [OF assms(2,3)])
qed

lemma ex_open1: "yep_open_file ex_h ex_fs1 yep_state_init [111] = Inr (True, ex_st1)"
  by (simp add: yep_open_file_def ex_h_def ex_fs1_def ex_archive1_def ex_st1_def
      yep_state_init_def overlay_def Let_def le_bytes_2 numeral_3_eq_3)

lemma ex_rec_name1: "rec_name ex_archive1 0 = 97 # replicate 63 0"
  by (simp add: rec_name_def ex_archive1_def)

theorem lookup_scans_all_then_first_match_witness:
  "yep_extract_data ex_h ex_zlib ex_fs1 yep_state_init [111] [98] =
     Inr (None, ex_st1\<lparr>open_files := (open_files ex_st1)
            (0 := Some \<lparr>s_data = ex_archive1, s_pos = 81\<rparr>)\<rparr>)
   \<and> yep_seek_header ex_st1 [97] hdr_vars_uninit =
     Inr (True, vars_at ex_archive1 3,
          ex_st1\<lparr>open_files := (open_files ex_st1)
            (0 := Some \<lparr>s_data = ex_archive1, s_pos = 81\<rparr>)\<rparr>)"
proof -
  have f: "yep_file ex_st1 = Some 0" by (simp add: ex_st1_def)
  have s: "open_files ex_st1 0 = Some \<lparr>s_data = ex_archive1, s_pos = 3\<rparr>"
    by (simp add: ex_st1_def)
  have n: "unat (file_entry_count ex_st1) = 1" by (simp add: ex_st1_def)
  have l: "length ex_archive1 = 83" by (simp add: ex_archive1_def)
  show ?thesis
    using lookup_scans_all_then_first_match [OF ex_open1 f s, of "[98]" ex_zlib]
      lookup_scans_all_then_first_match [OF ex_open1 f s, of "[97]" ex_zlib]
    by (simp add: n l ex_rec_name1 c_string_def)
qed

section \<open>The walk\<close>

lemma walked_Nil: "walked root [] pl = pl"
  by (simp add: walked_def)

lemma walked_append: "walked root (xs @ ys) pl = walked root ys (walked root xs pl)"
  by (simp add: walked_def)

lemma walked_Reg:
  "walked root [(full, c)] pl =
     (if length (drop (length root + 1) full) + 1 > 64 then pl
      else pl\<lparr>head := \<lparr>fullpath = full,
                        name = drop (length root + 1) full
                          @ replicate (64 - length (drop (length root + 1) full)) 0\<rparr> # head pl,
              entry_count := entry_count pl + 1\<rparr>)"
  by (simp add: walked_def pack_node_def fits_slot_def relative_path_def name_slot_def)

lemma walk_eq:
  "ye_walk_directory root d n pl = walked root (reg_files d n) pl"
  "walk_entries root d es pl = walked root (reg_files_entries d es) pl"
proof (induction root d n pl and root d es pl rule: ye_walk_directory_walk_entries.induct)
  case (6 root_path directory_path d_name n es pl)
  let ?full = "directory_path @ [47] @ d_name"
  let ?X = "(let full_path = ?full
        in case n of
             NoStat \<Rightarrow> pl
           | Reg c \<Rightarrow>
               let relative_path = drop (length root_path + 1) full_path
               in if length relative_path + 1 > 64 then pl
                  else pl
                    \<lparr>head :=
                       \<lparr>fullpath = full_path,
                        name = relative_path @ replicate (64 - length relative_path) 0\<rparr>
                       # head pl,
                     entry_count := entry_count pl + 1\<rparr>
           | Dir sub \<Rightarrow>
               if d_name \<noteq> [46] \<and> d_name \<noteq> [46, 46]
               then ye_walk_directory root_path full_path n pl
               else pl
           | Other \<Rightarrow> pl)"
  let ?here = "(case n of
        Reg c \<Rightarrow> [(?full, c)]
      | Dir sub \<Rightarrow>
          if d_name \<noteq> [46] \<and> d_name \<noteq> [46, 46]
          then reg_files ?full n
          else []
      | Other \<Rightarrow> []
      | NoStat \<Rightarrow> [])"
  have X: "?X = walked root_path ?here pl"
  proof (cases n)
    case (Reg c)
    then show ?thesis by (simp add: Let_def walked_Reg)
  next
    case (Dir sub)
    show ?thesis
    proof (cases "d_name \<noteq> [46] \<and> d_name \<noteq> [46, 46]")
      case True
      then show ?thesis using 6(1) [OF refl Dir True] Dir by (simp add: Let_def)
    next
      case False
      then show ?thesis using Dir by (auto simp: Let_def walked_Nil)
    qed
  next
    case Other
    then show ?thesis by (simp add: Let_def walked_Nil)
  next
    case NoStat
    then show ?thesis by (simp add: Let_def walked_Nil)
  qed
  have "walk_entries root_path directory_path ((d_name, n) # es) pl
      = walk_entries root_path directory_path es ?X"
    by (simp only: walk_entries.simps)
  also have "\<dots> = walked root_path (reg_files_entries directory_path es) ?X"
    by (rule 6(2))
  also have "\<dots> = walked root_path (?here @ reg_files_entries directory_path es) pl"
    by (simp only: X walked_append)
  also have "?here @ reg_files_entries directory_path es
      = reg_files_entries directory_path ((d_name, n) # es)"
    by (simp only: reg_files_entries.simps)
  finally show ?case .
qed (simp_all add: walked_Nil)

section \<open>The writer\<close>

lemma length_write_at:
  "length (write_at c p d) = (if d = [] then length c else max (length c) (p + length d))"
  by (auto simp: write_at_def)

lemma write_at_end: "write_at c (length c) d = c @ d"
  by (simp add: write_at_def)

lemma write_at_inside:
  "length B = length d \<Longrightarrow> write_at (A @ B @ C) (length A) d = A @ d @ C"
  by (auto simp: write_at_def)

lemma fwrite_end: "p = length c \<Longrightarrow> fwrite d \<lparr>s_data = c, s_pos = p\<rparr> = \<lparr>s_data = c @ d, s_pos = length c + length d\<rparr>"
  by (simp add: fwrite_def write_at_end)

lemma fwrite_inside:
  "length B = length d \<Longrightarrow> p = length A \<Longrightarrow>
   fwrite d \<lparr>s_data = A @ B @ C, s_pos = p\<rparr> = \<lparr>s_data = A @ d @ C, s_pos = length A + length d\<rparr>"
  by (simp add: fwrite_def write_at_inside)

lemma length_fwrite: "length (s_data s) \<le> length (s_data (fwrite d s))"
  by (simp add: fwrite_def length_write_at)

lemma replicate_4: "replicate 4 x = [x, x, x, x]"
  by (simp add: numeral_eq_Suc)

lemma le_bytes_4_0: "le_bytes 4 0 = replicate 4 0"
  by (simp add: le_bytes_4 replicate_4)

lemma replicate_14:
  "replicate 14 (0::byte) = replicate 4 0 @ replicate 4 0 @ [0] @ replicate 4 0 @ [0]"
  by (simp add: numeral_eq_Suc)

lemma write_headers_append:
  "write_headers nodes \<lparr>s_data = c, s_pos = length c\<rparr> =
   \<lparr>s_data = c @ skeleton nodes, s_pos = length (c @ skeleton nodes)\<rparr>"
proof (induction nodes arbitrary: c)
  case Nil
  then show ?case by (simp add: skeleton_def)
next
  case (Cons nd nodes)
  let ?r = "take 64 (name nd) @ replicate 14 0"
  have "fwrite [0] (fwrite (le_bytes 4 0) (fwrite [0] (fwrite (le_bytes 4 0) (fwrite (le_bytes 4 0)
          (fwrite (take 64 (name nd)) \<lparr>s_data = c, s_pos = length c\<rparr>)))))
      = \<lparr>s_data = c @ ?r, s_pos = length (c @ ?r)\<rparr>"
    by (simp add: fwrite_end le_bytes_4_0 length_le_bytes replicate_14)
  then show ?case
    using Cons.IH [of "c @ ?r"] by (simp add: skeleton_def)
qed

lemma update_header_inside:
  assumes "length A = 3 + 78 * i + 64" and "3 + 78 * i + 64 < 2 ^ 31"
    and l: "length b1 = 4" "length b2 = 4" "length b3 = 1" "length b4 = 4" "length b5 = 1"
    and B: "B = b1 @ b2 @ b3 @ b4 @ b5"
  shows "update_header \<lparr>s_data = A @ B @ C, s_pos = p\<rparr> i off sz ct us dt =
     Inr \<lparr>s_data = A @ (le_bytes 4 (unat off) @ le_bytes 4 (unat sz) @ [ct] @ le_bytes 4 (unat us) @ [dt]) @ C,
          s_pos = length A + 14\<rparr>"
proof -
  let ?o = "le_bytes 4 (unat off)" and ?s = "le_bytes 4 (unat sz)" and ?u = "le_bytes 4 (unat us)"
  have 1: "fwrite ?o (fseek \<lparr>s_data = A @ B @ C, s_pos = p\<rparr> (3 + 78 * i + 64))
      = \<lparr>s_data = (A @ ?o) @ b2 @ (b3 @ b4 @ b5 @ C), s_pos = length (A @ ?o)\<rparr>"
    using fwrite_inside [of b1 ?o "3 + 78 * i + 64" A "b2 @ b3 @ b4 @ b5 @ C"] l assms(1)
    by (simp add: fseek_def B length_le_bytes)
  have 2: "fwrite ?s \<lparr>s_data = (A @ ?o) @ b2 @ (b3 @ b4 @ b5 @ C), s_pos = length (A @ ?o)\<rparr>
      = \<lparr>s_data = (A @ ?o @ ?s) @ b3 @ (b4 @ b5 @ C), s_pos = length (A @ ?o @ ?s)\<rparr>"
    using fwrite_inside [of b2 ?s "length (A @ ?o)" "A @ ?o" "b3 @ b4 @ b5 @ C"] l
    by (simp add: length_le_bytes)
  have 3: "fwrite [ct] \<lparr>s_data = (A @ ?o @ ?s) @ b3 @ (b4 @ b5 @ C), s_pos = length (A @ ?o @ ?s)\<rparr>
      = \<lparr>s_data = (A @ ?o @ ?s @ [ct]) @ b4 @ (b5 @ C), s_pos = length (A @ ?o @ ?s @ [ct])\<rparr>"
    using fwrite_inside [of b3 "[ct]" "length (A @ ?o @ ?s)" "A @ ?o @ ?s" "b4 @ b5 @ C"] l
    by (simp add: length_le_bytes)
  have 4: "fwrite ?u \<lparr>s_data = (A @ ?o @ ?s @ [ct]) @ b4 @ (b5 @ C), s_pos = length (A @ ?o @ ?s @ [ct])\<rparr>
      = \<lparr>s_data = (A @ ?o @ ?s @ [ct] @ ?u) @ b5 @ C, s_pos = length (A @ ?o @ ?s @ [ct] @ ?u)\<rparr>"
    using fwrite_inside [of b4 ?u "length (A @ ?o @ ?s @ [ct])" "A @ ?o @ ?s @ [ct]" "b5 @ C"] l
    by (simp add: length_le_bytes)
  have 5: "fwrite [dt] \<lparr>s_data = (A @ ?o @ ?s @ [ct] @ ?u) @ b5 @ C, s_pos = length (A @ ?o @ ?s @ [ct] @ ?u)\<rparr>
      = \<lparr>s_data = (A @ ?o @ ?s @ [ct] @ ?u @ [dt]) @ C, s_pos = length (A @ ?o @ ?s @ [ct] @ ?u @ [dt])\<rparr>"
    using fwrite_inside [of b5 "[dt]" "length (A @ ?o @ ?s @ [ct] @ ?u)" "A @ ?o @ ?s @ [ct] @ ?u" C] l
    by (simp add: length_le_bytes)
  have "update_header \<lparr>s_data = A @ B @ C, s_pos = p\<rparr> i off sz ct us dt =
      Inr (fwrite [dt] (fwrite ?u (fwrite [ct] (fwrite ?s (fwrite ?o
        (fseek \<lparr>s_data = A @ B @ C, s_pos = p\<rparr> (3 + 78 * i + 64)))))))"
  proof -
    have e: "3 + i * 78 + 64 = 3 + 78 * i + 64" by simp
    have g: "\<not> (2::nat) ^ 31 \<le> 3 + 78 * i + 64" using assms(2) by linarith
    show ?thesis
      unfolding update_header_def Let_def YEP_HEADER_SIZE_BYTES_def e
      by (simp only: g if_False)
  qed
  also have "\<dots> = Inr \<lparr>s_data = (A @ ?o @ ?s @ [ct] @ ?u @ [dt]) @ C,
      s_pos = length (A @ ?o @ ?s @ [ct] @ ?u @ [dt])\<rparr>"
    by (simp only: 1 2 3 4 5)
  finally show ?thesis by (simp add: length_le_bytes)
qed

lemma unat_of_nat_le: "unat (of_nat n :: u32) \<le> n"
  by (simp add: unat_of_nat)

lemma pack_entry_data_length:
  assumes "pack_entry_data z c = Inr (data, ds, ct, us)"
  shows "unat ds \<le> length data"
  using assms
  by (auto simp: pack_entry_data_def Let_def get_file_size_def read_file_data_def unat_of_nat_le
      split: if_splits outptr.splits)

lemma length_write_data_to_pack:
  "length (s_data f) \<le> length (s_data (write_data_to_pack f off d sz))"
  by (simp add: write_data_to_pack_def fwrite_def fseek_def length_write_at)

lemma length_update_header:
  assumes "update_header f i off sz ct us dt = Inr f'"
  shows "length (s_data f) \<le> length (s_data f')"
proof -
  have "\<And>d s. length (s_data s) \<le> length (s_data (fwrite d s))" by (rule length_fwrite)
  then have "\<And>a b c d e s. length (s_data s) \<le> length (s_data (fwrite a (fwrite b (fwrite c (fwrite d (fwrite e s))))))"
    by (meson le_trans)
  moreover have "\<And>p. s_data (fseek f p) = s_data f" by (simp add: fseek_def)
  ultimately show ?thesis
    using assms by (auto simp: update_header_def Let_def split: if_splits) (metis)
qed

lemma write_pack_loop_mono:
  "write_pack_loop h z fs nodes i de f = Inr r \<Longrightarrow> length (s_data f) \<le> length (s_data r)"
proof (induction nodes arbitrary: i de f)
  case Nil
  then show ?case by simp
next
  case (Cons nd nodes)
  from Cons.prems obtain c where c: "fs (fullpath nd) = Some c"
    by (cases "fs (fullpath nd)") auto
  from Cons.prems c obtain data ds ct us where p: "pack_entry_data z c = Inr (data, ds, ct, us)"
    by (cases "pack_entry_data z c") auto
  from Cons.prems c p obtain f' where
    u: "update_header (write_data_to_pack f de data ds) i de ds ct us (YEP_DATATYPE_MISC h) = Inr f'"
    by (cases "update_header (write_data_to_pack f de data ds) i de ds ct us (YEP_DATATYPE_MISC h)") auto
  have r: "write_pack_loop h z fs nodes (i + 1) (de + ds) f' = Inr r"
    using Cons.prems c p u by simp
  have "length (s_data f) \<le> length (s_data (write_data_to_pack f de data ds))"
    by (rule length_write_data_to_pack)
  also have "\<dots> \<le> length (s_data f')" using u by (rule length_update_header)
  also have "\<dots> \<le> length (s_data r)" using r by (rule Cons.IH)
  finally show ?case .
qed

lemma update_header_guard:
  "update_header f i off sz ct us dt = Inr f' \<Longrightarrow> 3 + 78 * i + 64 < 2 ^ 31"
  by (auto simp: update_header_def Let_def YEP_HEADER_SIZE_BYTES_def split: if_splits)

lemma skeleton_Cons:
  "skeleton (nd # nodes) = take 64 (name nd) @ replicate 14 0 @ skeleton nodes"
  by (simp add: skeleton_def)

lemma entry_stored_eq:
  "fs (fullpath nd) = Some c \<Longrightarrow> pack_entry_data z c = Inr (data, ds, ct, us) \<Longrightarrow>
   entry_stored z fs nd = take (unat ds) data"
  by (simp add: entry_stored_def)

lemma entry_record_eq:
  "fs (fullpath nd) = Some c \<Longrightarrow> pack_entry_data z c = Inr (data, ds, ct, us) \<Longrightarrow>
   entry_record h z fs nd off =
     take 64 (name nd) @ le_bytes 4 off @ le_bytes 4 (unat ds) @ [ct] @ le_bytes 4 (unat us)
     @ [YEP_DATATYPE_MISC h]"
  by (simp add: entry_record_def)

lemma write_pack_loop_layout:
  assumes "write_pack_loop h z fs nodes i de \<lparr>s_data = P @ skeleton nodes @ Q, s_pos = p\<rparr> = Inr r"
    and "length (s_data r) < 2 ^ 32"
    and "length P = 3 + 78 * i"
    and "unat de = length (P @ skeleton nodes @ Q)"
    and "\<forall>nd \<in> set nodes. length (name nd) = 64"
  shows "s_data r = P @ archive_records h z fs nodes (unat de) @ Q @ archive_payloads z fs nodes
    \<and> (\<forall>nd \<in> set nodes. \<exists>c data ds ct us.
          fs (fullpath nd) = Some c \<and> pack_entry_data z c = Inr (data, ds, ct, us))"
  using assms
proof (induction nodes arbitrary: i de P Q p r)
  case Nil
  then show ?case by (auto simp: skeleton_def archive_payloads_def)
next
  case (Cons nd nodes)
  let ?nm = "take 64 (name nd)"
  let ?Z = "replicate 14 (0::byte)"
  let ?S = "skeleton nodes"
  let ?f = "P @ skeleton (nd # nodes) @ Q"
  let ?dt = "YEP_DATATYPE_MISC h"
  have lnm: "length ?nm = 64" using Cons.prems(5) by simp
  from Cons.prems(1) obtain c where c: "fs (fullpath nd) = Some c"
    by (cases "fs (fullpath nd)") auto
  from Cons.prems(1) c obtain data ds ct us where pe: "pack_entry_data z c = Inr (data, ds, ct, us)"
    by (cases "pack_entry_data z c") auto
  let ?st = "take (unat ds) data"
  have lst: "length ?st = unat ds" using pack_entry_data_length [OF pe] by simp
  have w: "write_data_to_pack \<lparr>s_data = ?f, s_pos = p\<rparr> de data ds =
      \<lparr>s_data = ?f @ ?st, s_pos = length ?f + length ?st\<rparr>"
    using Cons.prems(4) by (simp add: write_data_to_pack_def fseek_def fwrite_end)
  let ?w = "\<lparr>s_data = ?f @ ?st, s_pos = length ?f + length ?st\<rparr>"
  from Cons.prems(1) c pe w obtain f' where
    u: "update_header ?w i de ds ct us ?dt = Inr f'"
    by (cases "update_header ?w i de ds ct us ?dt") auto
  have run: "write_pack_loop h z fs nodes (i + 1) (de + ds) f' = Inr r"
    using Cons.prems(1) c pe w u by simp
  have guard: "3 + 78 * i + 64 < 2 ^ 31" using u by (rule update_header_guard)
  let ?F = "le_bytes 4 (unat de) @ le_bytes 4 (unat ds) @ [ct] @ le_bytes 4 (unat us) @ [?dt]"
  have fsplit: "?f @ ?st = (P @ ?nm) @ ?Z @ (?S @ Q @ ?st)"
    by (simp add: skeleton_Cons)
  have "update_header \<lparr>s_data = (P @ ?nm) @ ?Z @ (?S @ Q @ ?st), s_pos = length ?f + length ?st\<rparr>
        i de ds ct us ?dt
      = Inr \<lparr>s_data = (P @ ?nm) @ ?F @ (?S @ Q @ ?st), s_pos = length (P @ ?nm) + 14\<rparr>"
  proof (rule update_header_inside [OF _ guard])
    show "length (P @ ?nm) = 3 + 78 * i + 64" using Cons.prems(3) lnm by simp
    show "?Z = replicate 4 0 @ replicate 4 0 @ [0] @ replicate 4 0 @ [0]" by (rule replicate_14)
  qed simp_all
  then have f': "f' = \<lparr>s_data = (P @ ?nm @ ?F) @ ?S @ (Q @ ?st), s_pos = length (P @ ?nm) + 14\<rparr>"
    using u fsplit by simp
  have lf': "length (s_data f') = unat de + unat ds"
    using Cons.prems(4) lst by (simp add: f' skeleton_Cons length_le_bytes)
  have "length (s_data f') \<le> length (s_data r)" using run by (rule write_pack_loop_mono)
  then have nowrap: "unat de + unat ds < 2 ^ 32" using lf' Cons.prems(2) by simp
  have ude: "unat (de + ds) = unat de + unat ds"
    using nowrap unat_add_lem [of de ds] by simp
  have IH: "s_data r = (P @ ?nm @ ?F) @ archive_records h z fs nodes (unat (de + ds)) @ (Q @ ?st)
        @ archive_payloads z fs nodes
      \<and> (\<forall>nd \<in> set nodes. \<exists>c data ds ct us.
            fs (fullpath nd) = Some c \<and> pack_entry_data z c = Inr (data, ds, ct, us))"
  proof (rule Cons.IH)
    show "write_pack_loop h z fs nodes (i + 1) (de + ds)
        \<lparr>s_data = (P @ ?nm @ ?F) @ ?S @ (Q @ ?st), s_pos = length (P @ ?nm) + 14\<rparr> = Inr r"
      using run f' by simp
    show "length (s_data r) < 2 ^ 32" by (rule Cons.prems(2))
    show "length (P @ ?nm @ ?F) = 3 + 78 * (i + 1)"
      using Cons.prems(3) lnm by (simp add: length_le_bytes)
    show "unat (de + ds) = length ((P @ ?nm @ ?F) @ ?S @ (Q @ ?st))"
      using ude lf' by (simp add: f')
    show "\<forall>nd \<in> set nodes. length (name nd) = 64" using Cons.prems(5) by simp
  qed
  have m: "min (length data) (unat ds) = unat ds"
    using pack_entry_data_length [OF pe] by simp
  have rec: "entry_record h z fs nd (unat de) = ?nm @ ?F"
    using c pe by (simp add: entry_record_def)
  have sto: "entry_stored z fs nd = ?st" using c pe by (simp add: entry_stored_def)
  have "s_data r = P @ archive_records h z fs (nd # nodes) (unat de) @ Q
      @ archive_payloads z fs (nd # nodes)"
    using IH m by (simp add: rec sto ude archive_payloads_def)
  moreover have "\<exists>c data ds ct us. fs (fullpath nd) = Some c \<and> pack_entry_data z c = Inr (data, ds, ct, us)"
    using c pe by blast
  ultimately show ?case using IH by simp
qed

lemma unat_of_nat_u32: "m < 2 ^ 32 \<Longrightarrow> unat (of_nat m :: u32) = m"
  by (simp add: unat_of_nat)

lemma length_skeleton:
  "\<forall>nd \<in> set nodes. length (name nd) = 64 \<Longrightarrow> length (skeleton nodes) = 78 * length nodes"
  by (induction nodes) (simp_all add: skeleton_def)

lemma length_name_slot: "length rel + 1 \<le> 64 \<Longrightarrow> length (name_slot rel) = 64"
  by (simp add: name_slot_def)

lemma walked_head:
  "head (walked root files pl) =
     rev (map (pack_node root) (filter (fits_slot root) (map fst files))) @ head pl"
  by (simp add: walked_def)

lemma walked_count:
  "entry_count (walked root files pl) =
     entry_count pl + length (filter (fits_slot root) (map fst files))"
  by (simp add: walked_def)

lemma walked_init_names:
  "nd \<in> set (head (walked root files yep_pack_list_init)) \<Longrightarrow> length (name nd) = 64"
  by (auto simp: walked_head yep_pack_list_init_def pack_node_def fits_slot_def length_name_slot)

lemma walked_init_count:
  "entry_count (walked root files yep_pack_list_init) =
     length (head (walked root files yep_pack_list_init))"
  by (simp add: walked_head walked_count yep_pack_list_init_def)

lemma pack_layout:
  assumes "yep_pack_directory h z tree root can_create yep_pack_list_init = Inr (True, Some a, pl)"
    and "length a < 2 ^ 32"
  shows "pl = walked root (reg_files root tree) yep_pack_list_init
     \<and> a = ([YEP_CURRENT_FORMAT_VERSION h] @ le_bytes 2 (entry_count pl mod 65536))
         @ archive_records h z (map_of (reg_files root tree)) (head pl) (3 + 78 * entry_count pl)
         @ archive_payloads z (map_of (reg_files root tree)) (head pl)
     \<and> (\<forall>nd \<in> set (head pl). node_ok z (map_of (reg_files root tree)) nd)
     \<and> 3 + 78 * entry_count pl \<le> length a"
proof -
  let ?pl = "walked root (reg_files root tree) yep_pack_list_init"
  let ?fs = "map_of (reg_files root tree)"
  let ?c = "[YEP_CURRENT_FORMAT_VERSION h] @ le_bytes 2 (unat (of_nat (entry_count ?pl) :: u16))"
  let ?n = "entry_count ?pl"
  have cc: "can_create" using assms(1) by (auto simp: yep_pack_directory_def Let_def split: if_splits)
  have lc: "length ?c = 3" by (simp add: length_le_bytes)
  have f2: "fwrite (le_bytes 2 (unat (of_nat ?n :: u16)))
        (fwrite [YEP_CURRENT_FORMAT_VERSION h] \<lparr>s_data = [], s_pos = 0\<rparr>)
      = \<lparr>s_data = ?c, s_pos = length ?c\<rparr>"
    by (simp add: fwrite_end length_le_bytes)
  have f3: "write_headers (head ?pl) \<lparr>s_data = ?c, s_pos = length ?c\<rparr>
      = \<lparr>s_data = ?c @ skeleton (head ?pl), s_pos = length (?c @ skeleton (head ?pl))\<rparr>"
    by (rule write_headers_append)
  let ?f3 = "\<lparr>s_data = ?c @ skeleton (head ?pl) @ [], s_pos = length (?c @ skeleton (head ?pl))\<rparr>"
  let ?de = "of_nat (3 + ?n * YEP_HEADER_SIZE_BYTES) :: u32"
  from assms(1) cc obtain r where
    run: "write_pack_loop h z ?fs (head ?pl) 0 ?de ?f3 = Inr r"
    and a: "a = s_data r" and pl: "pl = ?pl"
    unfolding yep_pack_directory_def Let_def walk_eq write_pack_file_def
    by (simp only: f2 f3 if_False not_True_eq_False simp_thms) (auto split: sum.splits)
  have names: "\<forall>nd \<in> set (head ?pl). length (name nd) = 64"
    using walked_init_names by blast
  have lsk: "length (skeleton (head ?pl)) = 78 * ?n"
    using length_skeleton [OF names] by (simp add: walked_init_count)
  have "length (s_data ?f3) \<le> length (s_data r)" using run by (rule write_pack_loop_mono)
  then have bound: "3 + 78 * ?n \<le> length a" using lsk a by (simp add: length_le_bytes)
  then have small: "3 + 78 * ?n < 2 ^ 32" using assms(2) by simp
  have "3 + ?n * YEP_HEADER_SIZE_BYTES < 2 ^ 32"
    using small by (simp add: YEP_HEADER_SIZE_BYTES_def)
  then have "unat ?de = 3 + ?n * YEP_HEADER_SIZE_BYTES"
    by (rule unat_of_nat_u32)
  then have ude: "unat ?de = 3 + 78 * ?n"
    by (simp only: YEP_HEADER_SIZE_BYTES_def mult.commute)
  have c16: "unat (of_nat ?n :: u16) = ?n mod 65536" by (simp add: unat_of_nat)
  have "s_data r = ?c @ archive_records h z ?fs (head ?pl) (unat ?de) @ []
        @ archive_payloads z ?fs (head ?pl)
      \<and> (\<forall>nd \<in> set (head ?pl). \<exists>c data ds ct us.
            ?fs (fullpath nd) = Some c \<and> pack_entry_data z c = Inr (data, ds, ct, us))"
  proof (rule write_pack_loop_layout [OF run])
    show "length (s_data r) < 2 ^ 32" using assms(2) a by simp
    show "length ?c = 3 + 78 * 0" by (simp add: length_le_bytes)
    show "unat ?de = length (?c @ skeleton (head ?pl) @ [])"
      using ude lsk by (simp add: length_le_bytes)
    show "\<forall>nd \<in> set (head ?pl). length (name nd) = 64" by (rule names)
  qed
  note L = this [unfolded ude c16]
  have 1: "a = ([YEP_CURRENT_FORMAT_VERSION h] @ le_bytes 2 (entry_count ?pl mod 65536))
         @ archive_records h z ?fs (head ?pl) (3 + 78 * entry_count ?pl)
         @ archive_payloads z ?fs (head ?pl)"
    using L a by simp
  have 2: "\<forall>nd \<in> set (head ?pl). node_ok z ?fs nd"
    using L by (simp add: node_ok_def)
  show ?thesis
    unfolding pl by (intro conjI refl 1 2 bound)
qed

lemma le_val_le_bytes_4: "v < 2 ^ 32 \<Longrightarrow> le_val (le_bytes 4 v) = v"
  using le_val_le_bytes [of v 4] by simp

lemma le_val_single: "le_val [b] = unat b"
  by simp

lemma length_entry_record:
  "node_ok z fs nd \<Longrightarrow> length (name nd) = 64 \<Longrightarrow> length (entry_record h z fs nd off) = 78"
  by (auto simp: node_ok_def entry_record_def length_le_bytes)

lemma length_archive_records:
  "\<forall>nd \<in> set nodes. node_ok z fs nd \<and> length (name nd) = 64 \<Longrightarrow>
   length (archive_records h z fs nodes off) = 78 * length nodes"
  by (induction nodes arbitrary: off) (simp_all add: length_entry_record)

lemma archive_payloads_Cons:
  "archive_payloads z fs (nd # nodes) = entry_stored z fs nd @ archive_payloads z fs nodes"
  by (simp add: archive_payloads_def)

lemma archive_records_nth:
  assumes "i < length nodes"
    and "\<forall>nd \<in> set nodes. node_ok z fs nd \<and> length (name nd) = 64"
  shows "take 78 (drop (78 * i) (archive_records h z fs nodes off @ X)) =
     entry_record h z fs (nodes ! i) (off + length (archive_payloads z fs (take i nodes)))"
  using assms
proof (induction nodes arbitrary: i off)
  case Nil
  then show ?case by simp
next
  case (Cons nd nodes)
  have l: "length (entry_record h z fs nd off) = 78"
    using Cons.prems(2) by (simp add: length_entry_record)
  show ?case
  proof (cases i)
    case 0
    then show ?thesis using l by (simp add: archive_payloads_def)
  next
    case (Suc j)
    have "take 78 (drop (78 * j) (archive_records h z fs nodes (off + length (entry_stored z fs nd)) @ X))
        = entry_record h z fs (nodes ! j)
            (off + length (entry_stored z fs nd) + length (archive_payloads z fs (take j nodes)))"
      using Cons.prems Suc by (intro Cons.IH) simp_all
    then show ?thesis using l Suc by (simp add: archive_payloads_Cons add.assoc)
  qed
qed

lemma archive_payloads_split:
  assumes "i < length nodes"
  shows "archive_payloads z fs nodes =
      archive_payloads z fs (take i nodes) @ entry_stored z fs (nodes ! i)
      @ archive_payloads z fs (drop (Suc i) nodes)"
proof -
  have "nodes = take i nodes @ nodes ! i # drop (Suc i) nodes"
    using assms by (rule id_take_nth_drop)
  then show ?thesis
    unfolding archive_payloads_def by (metis concat.simps(2) concat_append list.simps(9) map_append)
qed

lemma archive_payloads_nth:
  assumes "i < length nodes"
  shows "drop (length (archive_payloads z fs (take i nodes))) (archive_payloads z fs nodes) =
     entry_stored z fs (nodes ! i) @ archive_payloads z fs (drop (Suc i) nodes)"
  using archive_payloads_split [OF assms, of z fs] by simp

lemma length_archive_payloads_take:
  assumes "i < length nodes"
  shows "length (archive_payloads z fs (take i nodes)) + length (entry_stored z fs (nodes ! i))
     \<le> length (archive_payloads z fs nodes)"
proof -
  have "length (archive_payloads z fs nodes) =
      length (archive_payloads z fs (take i nodes)) + length (entry_stored z fs (nodes ! i))
      + length (archive_payloads z fs (drop (Suc i) nodes))"
    using archive_payloads_split [OF assms, of z fs] by (metis length_append add.assoc)
  then show ?thesis by simp
qed

text \<open>Reading the fields of a record of 78 bytes at position p.\<close>

lemma record_fields:
  assumes R: "take 78 (drop p a) = nm @ f_off @ f_size @ [ct] @ f_us @ [dt]"
    and l: "length nm = 64" "length f_off = 4" "length f_size = 4" "length f_us = 4"
  shows "take 64 (drop p a) = nm"
    and "take 4 (drop (p + 64) a) = f_off"
    and "take 4 (drop (p + 68) a) = f_size"
    and "take 1 (drop (p + 72) a) = [ct]"
    and "take 4 (drop (p + 73) a) = f_us"
    and "take 1 (drop (p + 77) a) = [dt]"
proof -
  let ?R = "take 78 (drop p a)"
  have g: "\<And>j k. j + k \<le> 78 \<Longrightarrow> take k (drop (p + j) a) = take k (drop j ?R)"
    by (simp add: drop_take min_def add.commute)
  show "take 64 (drop p a) = nm" using g [of 0 64] R l by simp
  show "take 4 (drop (p + 64) a) = f_off" using g [of 64 4] R l by simp
  show "take 4 (drop (p + 68) a) = f_size" using g [of 68 4] R l by simp
  show "take 1 (drop (p + 72) a) = [ct]" using g [of 72 1] R l by simp
  show "take 4 (drop (p + 73) a) = f_us" using g [of 73 4] R l by simp
  show "take 1 (drop (p + 77) a) = [dt]" using g [of 77 1] R l by simp
qed

lemma drop_prefix: "length C = n \<Longrightarrow> drop (n + k) (C @ X) = drop k X"
  by simp

lemma packed_entry:
  assumes pack: "yep_pack_directory h z tree root can_create yep_pack_list_init = Inr (True, Some a, pl)"
    and small: "length a < 2 ^ 32"
    and i: "i < length (head pl)"
  shows "\<exists>c data ds ct us.
       map_of (reg_files root tree) (fullpath (head pl ! i)) = Some c
     \<and> pack_entry_data z c = Inr (data, ds, ct, us)
     \<and> entry_stored z (map_of (reg_files root tree)) (head pl ! i) = take (unat ds) data
     \<and> rec_name a i = name (head pl ! i)
     \<and> rec_offset a i = 3 + 78 * length (head pl)
          + length (archive_payloads z (map_of (reg_files root tree)) (take i (head pl)))
     \<and> rec_size a i = unat ds
     \<and> rec_compression a i = unat ct
     \<and> rec_uncompressed_size a i = unat us
     \<and> rec_data_type a i = unat (YEP_DATATYPE_MISC h)
     \<and> take (unat ds) (drop (rec_offset a i) a) = take (unat ds) data
     \<and> rec_offset a i + unat ds \<le> length a"
proof -
  let ?fs = "map_of (reg_files root tree)"
  let ?nodes = "head pl"
  let ?n = "length ?nodes"
  let ?C = "[YEP_CURRENT_FORMAT_VERSION h] @ le_bytes 2 (entry_count pl mod 65536)"
  let ?R = "archive_records h z ?fs ?nodes (3 + 78 * entry_count pl)"
  let ?P = "archive_payloads z ?fs ?nodes"
  note L = pack_layout [OF pack small]
  have pl: "pl = walked root (reg_files root tree) yep_pack_list_init" using L by simp
  have cnt: "entry_count pl = ?n" unfolding pl by (rule walked_init_count)
  have a: "a = ?C @ ?R @ ?P" using L by simp
  have names: "\<forall>nd \<in> set ?nodes. length (name nd) = 64"
    unfolding pl using walked_init_names by blast
  have ok: "\<forall>nd \<in> set ?nodes. node_ok z ?fs nd" using L by simp
  have both: "\<forall>nd \<in> set ?nodes. node_ok z ?fs nd \<and> length (name nd) = 64"
    using names ok by simp
  have lC: "length ?C = 3" by (simp add: length_le_bytes)
  have lR: "length ?R = 78 * ?n" using both by (rule length_archive_records)
  have la: "length a = 3 + 78 * ?n + length ?P"
    by (subst a) (simp add: lR length_le_bytes)
  let ?nd = "?nodes ! i"
  have "node_ok z ?fs ?nd" using ok i by simp
  then obtain c data ds ct us where c: "?fs (fullpath ?nd) = Some c"
    and pe: "pack_entry_data z c = Inr (data, ds, ct, us)"
    unfolding node_ok_def by blast
  let ?st = "take (unat ds) data"
  have sto: "entry_stored z ?fs ?nd = ?st" using c pe by (simp add: entry_stored_def)
  have lst: "length ?st = unat ds" using pack_entry_data_length [OF pe] by simp
  let ?off = "3 + 78 * ?n + length (archive_payloads z ?fs (take i ?nodes))"
  have fit: "?off + unat ds \<le> length a"
    using length_archive_payloads_take [OF i, of z ?fs] la sto lst by simp
  then have offsmall: "?off < 2 ^ 32" using small by simp
  have lnm: "length (name ?nd) = 64" using names i by simp
  have "drop (3 + 78 * i) a = drop (78 * i) (?R @ ?P)"
    by (subst a) (rule drop_prefix [OF lC])
  then have "take 78 (drop (3 + 78 * i) a) = entry_record h z ?fs ?nd ?off"
    using archive_records_nth [OF i both, of h "3 + 78 * entry_count pl" ?P] cnt
    by (simp add: add.assoc)
  also have "\<dots> = name ?nd @ le_bytes 4 ?off @ le_bytes 4 (unat ds) @ [ct]
      @ le_bytes 4 (unat us) @ [YEP_DATATYPE_MISC h]"
    using c pe lnm by (simp add: entry_record_def)
  finally have R: "take 78 (drop (3 + 78 * i) a) =
      name ?nd @ le_bytes 4 ?off @ le_bytes 4 (unat ds) @ [ct]
      @ le_bytes 4 (unat us) @ [YEP_DATATYPE_MISC h]" .
  note F = record_fields [OF R lnm length_le_bytes length_le_bytes length_le_bytes]
  have dsl: "unat ds < 2 ^ 32" using unsigned_less [of ds, where 'a = nat] by simp
  have usl: "unat us < 2 ^ 32" using unsigned_less [of us, where 'a = nat] by simp
  have 1: "rec_name a i = name ?nd" using F(1) by (simp add: rec_name_def)
  have 2: "rec_offset a i = ?off"
    using F(2) offsmall by (simp add: rec_offset_def le_val_le_bytes_4)
  have 3: "rec_size a i = unat ds"
    using F(3) dsl by (simp add: rec_size_def le_val_le_bytes_4)
  have 4: "rec_compression a i = unat ct"
    using F(4) by (simp add: rec_compression_def)
  have 5: "rec_uncompressed_size a i = unat us"
    using F(5) usl by (simp add: rec_uncompressed_size_def le_val_le_bytes_4)
  have 6: "rec_data_type a i = unat (YEP_DATATYPE_MISC h)"
    using F(6) by (simp add: rec_data_type_def)
  have lCR: "length (?C @ ?R) = 3 + 78 * ?n"
    using lC lR by (simp only: length_append)
  have a': "a = (?C @ ?R) @ ?P" by (subst a) (simp only: append_assoc)
  have "drop ?off a = drop (length (archive_payloads z ?fs (take i ?nodes))) ?P"
    by (subst a') (rule drop_prefix [OF lCR])
  also have "\<dots> = ?st @ archive_payloads z ?fs (drop (Suc i) ?nodes)"
    using archive_payloads_nth [OF i, of z ?fs] sto by simp
  finally have "take (unat ds) (drop ?off a) = ?st" using lst by simp
  then have 7: "take (unat ds) (drop (rec_offset a i) a) = ?st" using 2 by simp
  have 8: "rec_offset a i + unat ds \<le> length a" using fit 2 by simp
  show ?thesis using c pe sto 1 2 3 4 5 6 7 8 by blast
qed

lemma write_pack_loop_forward:
  assumes "\<forall>nd \<in> set nodes. node_ok z fs nd \<and> length (name nd) = 64"
    and "length P = 3 + 78 * i"
    and "unat de = length (P @ skeleton nodes @ Q)"
    and "length (P @ skeleton nodes @ Q) + length (archive_payloads z fs nodes) < 2 ^ 32"
    and "3 + 78 * (i + length nodes) < 2 ^ 31"
  shows "\<exists>p'. write_pack_loop h z fs nodes i de \<lparr>s_data = P @ skeleton nodes @ Q, s_pos = p\<rparr> =
     Inr \<lparr>s_data = P @ archive_records h z fs nodes (unat de) @ Q @ archive_payloads z fs nodes,
          s_pos = p'\<rparr>"
  using assms
proof (induction nodes arbitrary: i de P Q p)
  case Nil
  then show ?case by (simp add: skeleton_def archive_payloads_def)
next
  case (Cons nd nodes)
  let ?nm = "take 64 (name nd)"
  let ?Z = "replicate 14 (0::byte)"
  let ?S = "skeleton nodes"
  let ?f = "P @ skeleton (nd # nodes) @ Q"
  let ?dt = "YEP_DATATYPE_MISC h"
  have lnm: "length ?nm = 64" using Cons.prems(1) by simp
  have "node_ok z fs nd" using Cons.prems(1) by simp
  then obtain c data ds ct us where c: "fs (fullpath nd) = Some c"
    and pe: "pack_entry_data z c = Inr (data, ds, ct, us)"
    unfolding node_ok_def by blast
  let ?st = "take (unat ds) data"
  have lst: "length ?st = unat ds" using pack_entry_data_length [OF pe] by simp
  have sto: "entry_stored z fs nd = ?st" using c pe by (simp add: entry_stored_def)
  have m: "min (length data) (unat ds) = unat ds"
    using pack_entry_data_length [OF pe] by simp
  have w: "write_data_to_pack \<lparr>s_data = ?f, s_pos = p\<rparr> de data ds =
      \<lparr>s_data = ?f @ ?st, s_pos = length ?f + length ?st\<rparr>"
    using Cons.prems(3) by (simp add: write_data_to_pack_def fseek_def fwrite_end)
  let ?F = "le_bytes 4 (unat de) @ le_bytes 4 (unat ds) @ [ct] @ le_bytes 4 (unat us) @ [?dt]"
  have guard: "3 + 78 * i + 64 < 2 ^ 31" using Cons.prems(5) by simp
  have fsplit: "?f @ ?st = (P @ ?nm) @ ?Z @ (?S @ Q @ ?st)"
    by (simp add: skeleton_Cons)
  have eq: "(P @ ?nm) @ ?F @ (?S @ Q @ ?st) = (P @ ?nm @ ?F) @ ?S @ (Q @ ?st)"
    by simp
  have u: "update_header \<lparr>s_data = ?f @ ?st, s_pos = length ?f + length ?st\<rparr> i de ds ct us ?dt
      = Inr \<lparr>s_data = (P @ ?nm @ ?F) @ ?S @ (Q @ ?st), s_pos = length (P @ ?nm) + 14\<rparr>"
    unfolding fsplit eq [symmetric]
  proof (rule update_header_inside [OF _ guard])
    show "length (P @ ?nm) = 3 + 78 * i + 64" using Cons.prems(2) lnm by simp
    show "?Z = replicate 4 0 @ replicate 4 0 @ [0] @ replicate 4 0 @ [0]" by (rule replicate_14)
  qed simp_all
  have step: "write_pack_loop h z fs (nd # nodes) i de \<lparr>s_data = ?f, s_pos = p\<rparr> =
      write_pack_loop h z fs nodes (i + 1) (de + ds)
        \<lparr>s_data = (P @ ?nm @ ?F) @ ?S @ (Q @ ?st), s_pos = length (P @ ?nm) + 14\<rparr>"
    by (simp only: write_pack_loop.simps c pe w u option.case sum.case prod.case)
  have tot: "length ?f + length (archive_payloads z fs (nd # nodes)) < 2 ^ 32"
    by (rule Cons.prems(4))
  have nowrap: "unat de + unat ds < 2 ^ 32"
    using tot Cons.prems(3) sto lst by (simp add: archive_payloads_Cons)
  have ude: "unat (de + ds) = unat de + unat ds"
    using nowrap unat_add_lem [of de ds] by simp
  have lf': "length ((P @ ?nm @ ?F) @ ?S @ (Q @ ?st)) = unat de + unat ds"
    using Cons.prems(3) lst by (simp add: skeleton_Cons length_le_bytes)
  have "\<exists>p'. write_pack_loop h z fs nodes (i + 1) (de + ds)
        \<lparr>s_data = (P @ ?nm @ ?F) @ ?S @ (Q @ ?st), s_pos = length (P @ ?nm) + 14\<rparr> =
      Inr \<lparr>s_data = (P @ ?nm @ ?F) @ archive_records h z fs nodes (unat (de + ds)) @ (Q @ ?st)
             @ archive_payloads z fs nodes, s_pos = p'\<rparr>"
  proof (rule Cons.IH)
    show "\<forall>nd \<in> set nodes. node_ok z fs nd \<and> length (name nd) = 64"
      using Cons.prems(1) by simp
    show "length (P @ ?nm @ ?F) = 3 + 78 * (i + 1)"
      using Cons.prems(2) lnm by (simp add: length_le_bytes)
    show "unat (de + ds) = length ((P @ ?nm @ ?F) @ ?S @ (Q @ ?st))"
      using ude lf' by simp
    show "length ((P @ ?nm @ ?F) @ ?S @ (Q @ ?st)) + length (archive_payloads z fs nodes) < 2 ^ 32"
      using tot Cons.prems(3) lf' sto lst by (simp add: archive_payloads_Cons)
    show "3 + 78 * (i + 1 + length nodes) < 2 ^ 31" using Cons.prems(5) by simp
  qed
  then obtain p' where r: "write_pack_loop h z fs (nd # nodes) i de \<lparr>s_data = ?f, s_pos = p\<rparr> =
      Inr \<lparr>s_data = (P @ ?nm @ ?F) @ archive_records h z fs nodes (unat (de + ds)) @ (Q @ ?st)
             @ archive_payloads z fs nodes, s_pos = p'\<rparr>"
    using step by auto
  have rec: "entry_record h z fs nd (unat de) = ?nm @ ?F"
    using c pe by (simp add: entry_record_def)
  have "(P @ ?nm @ ?F) @ archive_records h z fs nodes (unat (de + ds)) @ (Q @ ?st)
        @ archive_payloads z fs nodes
      = P @ archive_records h z fs (nd # nodes) (unat de) @ Q @ archive_payloads z fs (nd # nodes)"
    using m by (simp add: rec sto ude archive_payloads_def)
  then show ?case using r by auto
qed

lemma pack_forward:
  assumes "\<forall>nd \<in> set (head (walked root (reg_files root tree) yep_pack_list_init)).
             node_ok z (map_of (reg_files root tree)) nd"
    and "3 + 78 * length (head (walked root (reg_files root tree) yep_pack_list_init))
          + length (archive_payloads z (map_of (reg_files root tree))
              (head (walked root (reg_files root tree) yep_pack_list_init))) < 2 ^ 32"
    and "3 + 78 * length (head (walked root (reg_files root tree) yep_pack_list_init)) < 2 ^ 31"
  shows "yep_pack_directory h z tree root True yep_pack_list_init =
     Inr (True,
       Some (([YEP_CURRENT_FORMAT_VERSION h]
          @ le_bytes 2 (length (head (walked root (reg_files root tree) yep_pack_list_init)) mod 65536))
         @ archive_records h z (map_of (reg_files root tree))
             (head (walked root (reg_files root tree) yep_pack_list_init))
             (3 + 78 * length (head (walked root (reg_files root tree) yep_pack_list_init)))
         @ archive_payloads z (map_of (reg_files root tree))
             (head (walked root (reg_files root tree) yep_pack_list_init))),
       walked root (reg_files root tree) yep_pack_list_init)"
proof -
  let ?pl = "walked root (reg_files root tree) yep_pack_list_init"
  let ?fs = "map_of (reg_files root tree)"
  let ?n = "length (head ?pl)"
  have cnt: "entry_count ?pl = ?n" by (rule walked_init_count)
  let ?c = "[YEP_CURRENT_FORMAT_VERSION h] @ le_bytes 2 (unat (of_nat (entry_count ?pl) :: u16))"
  have f2: "fwrite (le_bytes 2 (unat (of_nat (entry_count ?pl) :: u16)))
        (fwrite [YEP_CURRENT_FORMAT_VERSION h] \<lparr>s_data = [], s_pos = 0\<rparr>)
      = \<lparr>s_data = ?c, s_pos = length ?c\<rparr>"
    by (simp add: fwrite_end length_le_bytes)
  have f3: "write_headers (head ?pl) \<lparr>s_data = ?c, s_pos = length ?c\<rparr>
      = \<lparr>s_data = ?c @ skeleton (head ?pl), s_pos = length (?c @ skeleton (head ?pl))\<rparr>"
    by (rule write_headers_append)
  let ?de = "of_nat (3 + entry_count ?pl * YEP_HEADER_SIZE_BYTES) :: u32"
  have names: "\<forall>nd \<in> set (head ?pl). length (name nd) = 64"
    using walked_init_names by blast
  have lsk: "length (skeleton (head ?pl)) = 78 * ?n"
    using length_skeleton [OF names] .
  have "3 + entry_count ?pl * YEP_HEADER_SIZE_BYTES < 2 ^ 32"
    using assms(2) cnt by (simp add: YEP_HEADER_SIZE_BYTES_def)
  then have "unat ?de = 3 + entry_count ?pl * YEP_HEADER_SIZE_BYTES"
    by (rule unat_of_nat_u32)
  then have ude: "unat ?de = 3 + 78 * ?n"
    by (simp only: YEP_HEADER_SIZE_BYTES_def mult.commute cnt)
  have c16: "unat (of_nat (entry_count ?pl) :: u16) = ?n mod 65536"
    by (simp add: unat_of_nat cnt)
  have "\<exists>p'. write_pack_loop h z ?fs (head ?pl) 0 ?de
        \<lparr>s_data = ?c @ skeleton (head ?pl) @ [], s_pos = length (?c @ skeleton (head ?pl))\<rparr> =
      Inr \<lparr>s_data = ?c @ archive_records h z ?fs (head ?pl) (unat ?de) @ []
             @ archive_payloads z ?fs (head ?pl), s_pos = p'\<rparr>"
  proof (rule write_pack_loop_forward)
    show "\<forall>nd \<in> set (head ?pl). node_ok z ?fs nd \<and> length (name nd) = 64"
      using assms(1) names by simp
    show "length ?c = 3 + 78 * 0" by (simp add: length_le_bytes)
    show "unat ?de = length (?c @ skeleton (head ?pl) @ [])"
      using ude lsk by (simp add: length_le_bytes)
    show "length (?c @ skeleton (head ?pl) @ []) + length (archive_payloads z ?fs (head ?pl)) < 2 ^ 32"
      using assms(2) lsk by (simp add: length_le_bytes)
    show "3 + 78 * (0 + ?n) < 2 ^ 31" using assms(3) by simp
  qed
  then obtain p' where run: "write_pack_loop h z ?fs (head ?pl) 0 ?de
        \<lparr>s_data = ?c @ skeleton (head ?pl), s_pos = length (?c @ skeleton (head ?pl))\<rparr> =
      Inr \<lparr>s_data = ?c @ archive_records h z ?fs (head ?pl) (3 + 78 * ?n)
             @ archive_payloads z ?fs (head ?pl), s_pos = p'\<rparr>"
    unfolding ude by auto
  show ?thesis
    unfolding yep_pack_directory_def Let_def walk_eq write_pack_file_def f2 f3 run
    by (simp only: c16 not_True_eq_False if_False sum.case stream.simps append_assoc)
qed

section \<open>Properties of a written archive\<close>

lemma ex_files2:
  "reg_files [100] ex_tree2 =
     [([100, 47, 97], [1, 2]), ([100, 47, 115, 47, 98], replicate 300 7),
      ([100, 47] @ replicate 70 120, [9])]"
  by (simp add: ex_tree2_def)

lemma ex_walked2: "walked [100] (reg_files [100] ex_tree2) yep_pack_list_init = ex_pl2"
  by (simp add: ex_files2 walked_def fits_slot_def relative_path_def pack_node_def name_slot_def
      yep_pack_list_init_def ex_pl2_def)

lemma ex_entry_a: "pack_entry_data ex_zlib [1, 2] = Inr ([1, 2], 2, 0, 2)"
  by (simp add: pack_entry_data_def get_file_size_def read_file_data_def Let_def
      YEP_COMPRESSION_ZLIB_def YEP_COMPRESSION_NONE_def)

lemma ex_entry_b:
  "pack_entry_data ex_zlib (replicate 300 7) = Inr (0 # replicate 300 7, 301, 1, 300)"
  by (simp add: pack_entry_data_def get_file_size_def read_file_data_def Let_def
      YEP_COMPRESSION_ZLIB_def YEP_COMPRESSION_NONE_def compress_data_def ex_zlib_def
      Z_OK_def Z_STREAM_END_def)

lemma ex_map_of2:
  "map_of (reg_files [100] ex_tree2) [100, 47, 97] = Some [1, 2]"
  "map_of (reg_files [100] ex_tree2) [100, 47, 115, 47, 98] = Some (replicate 300 7)"
  by (simp_all add: ex_files2)

lemma ex_stored2:
  "entry_stored ex_zlib (map_of (reg_files [100] ex_tree2)) (head ex_pl2 ! 0) = 0 # replicate 300 7"
  "entry_stored ex_zlib (map_of (reg_files [100] ex_tree2)) (head ex_pl2 ! Suc 0) = [1, 2]"
  by (simp_all add: entry_stored_def ex_pl2_def ex_map_of2 ex_entry_a ex_entry_b)

lemma ex_pack2:
  "yep_pack_directory ex_h ex_zlib ex_tree2 [100] True yep_pack_list_init =
     Inr (True, Some ex_archive2, ex_pl2)"
proof -
  have ok: "\<forall>nd \<in> set (head ex_pl2). node_ok ex_zlib (map_of (reg_files [100] ex_tree2)) nd"
    using ex_entry_a ex_entry_b by (simp add: ex_pl2_def node_ok_def ex_map_of2)
  have pay: "archive_payloads ex_zlib (map_of (reg_files [100] ex_tree2)) (head ex_pl2)
      = (0 # replicate 300 7) @ [1, 2]"
    by (simp add: archive_payloads_def entry_stored_def ex_pl2_def ex_map_of2 ex_entry_a ex_entry_b)
  have recs: "archive_records ex_h ex_zlib (map_of (reg_files [100] ex_tree2)) (head ex_pl2) 159
      = ([115, 47, 98] @ replicate 61 0) @ [159, 0, 0, 0] @ [45, 1, 0, 0] @ [1] @ [44, 1, 0, 0] @ [0]
        @ ([97] @ replicate 63 0) @ [204, 1, 0, 0] @ [2, 0, 0, 0] @ [0] @ [2, 0, 0, 0] @ [0]"
    by (simp add: entry_record_def entry_stored_def ex_pl2_def ex_map_of2 ex_entry_a ex_entry_b
        le_bytes_4 ex_h_def)
  have l: "length (head ex_pl2) = 2" by (simp add: ex_pl2_def)
  have ver: "YEP_CURRENT_FORMAT_VERSION ex_h = 1" by (simp add: ex_h_def)
  show ?thesis
    using pack_forward [of "[100]" ex_tree2 ex_zlib ex_h]
    unfolding ex_walked2 l using ok
    by (simp add: pay recs le_bytes_2 ver ex_archive2_def)
qed

lemma pack_count:
  assumes "yep_pack_directory h z tree root can_create yep_pack_list_init = Inr (True, Some a, pl)"
    and "length a < 2 ^ 32"
  shows "entry_count pl = length (head pl)"
  using pack_layout [OF assms] walked_init_count by simp

text \<open>
  Claim C5. When \<^verbatim>\<open>yep_pack_directory\<close>, started with the empty pack list, returns true and
  the archive it wrote is shorter than \<open>2 ^ 32\<close> bytes, every entry record of the archive
  has \<open>offset + stored_size\<close> at most the length of the archive.
\<close>

theorem packed_entries_within_archive:
  assumes "yep_pack_directory h z tree root can_create yep_pack_list_init = Inr (True, Some a, pl)"
    and "length a < 2 ^ 32"
  shows "\<forall>i. i < entry_count pl \<longrightarrow> rec_offset a i + rec_size a i \<le> length a"
proof (intro allI impI)
  fix i
  assume "i < entry_count pl"
  then have i: "i < length (head pl)" using pack_count [OF assms] by simp
  from packed_entry [OF assms i] show "rec_offset a i + rec_size a i \<le> length a"
    by auto
qed

lemma ex_small2: "length ex_archive2 < 2 ^ 32"
  by (simp add: ex_archive2_def)

theorem packed_entries_within_archive_witness:
  "rec_offset ex_archive2 0 + rec_size ex_archive2 0 \<le> length ex_archive2
   \<and> rec_offset ex_archive2 1 + rec_size ex_archive2 1 \<le> length ex_archive2"
  using packed_entries_within_archive [OF ex_pack2 ex_small2]
  by (simp add: ex_pl2_def)

lemma pack_entry_data_kind:
  assumes "pack_entry_data z c = Inr (data, ds, ct, us)" and "length c < 2 ^ 32"
  shows "ct = (if length c \<le> 256 then YEP_COMPRESSION_NONE else YEP_COMPRESSION_ZLIB)"
    and "unat us = length c"
proof -
  have u: "unat (of_nat (length c) :: u32) = length c"
    using assms(2) by (rule unat_of_nat_u32)
  have "((of_nat (length c) :: u32) > 256) = (length c > 256)"
    using u by (simp add: word_less_nat_alt)
  then show "ct = (if length c \<le> 256 then YEP_COMPRESSION_NONE else YEP_COMPRESSION_ZLIB)"
    using assms(1)
    by (auto simp: pack_entry_data_def Let_def get_file_size_def YEP_COMPRESSION_NONE_def
        YEP_COMPRESSION_ZLIB_def split: if_splits outptr.splits)
  show "unat us = length c"
    using assms(1) u
    by (auto simp: pack_entry_data_def Let_def get_file_size_def split: if_splits outptr.splits)
qed

text \<open>
  Claim C2, amended. For a successful pack whose archive is shorter than \<open>2 ^ 32\<close> bytes
  and a packed file whose content is shorter than \<open>2 ^ 32\<close> bytes, the record of the file
  holds compression kind NONE exactly when the content has at most 256 bytes and DEFLATE
  exactly when it has more.
\<close>

theorem compression_kind_by_threshold:
  assumes "yep_pack_directory h z tree root can_create yep_pack_list_init = Inr (True, Some a, pl)"
    and "length a < 2 ^ 32"
    and "i < entry_count pl"
    and "map_of (reg_files root tree) (fullpath (head pl ! i)) = Some content"
    and "length content < 2 ^ 32"
  shows "(rec_compression a i = unat YEP_COMPRESSION_NONE) = (length content \<le> 256)
     \<and> (rec_compression a i = unat YEP_COMPRESSION_ZLIB) = (length content > 256)"
proof -
  have i: "i < length (head pl)" using assms(3) pack_count [OF assms(1,2)] by simp
  from packed_entry [OF assms(1,2) i] obtain data ds ct us where
    pe: "pack_entry_data z content = Inr (data, ds, ct, us)"
    and k: "rec_compression a i = unat ct"
    using assms(4) by auto
  have "ct = (if length content \<le> 256 then YEP_COMPRESSION_NONE else YEP_COMPRESSION_ZLIB)"
    using pe assms(5) by (rule pack_entry_data_kind)
  then show ?thesis
    using k by (simp add: YEP_COMPRESSION_NONE_def YEP_COMPRESSION_ZLIB_def)
qed

theorem compression_kind_by_threshold_witness:
  "rec_compression ex_archive2 0 = 1 \<and> rec_compression ex_archive2 1 = 0"
proof -
  have c0: "map_of (reg_files [100] ex_tree2) (fullpath (head ex_pl2 ! 0)) = Some (replicate 300 7)"
    by (simp add: ex_pl2_def ex_map_of2)
  have c1: "map_of (reg_files [100] ex_tree2) (fullpath (head ex_pl2 ! 1)) = Some [1, 2]"
    by (simp add: ex_pl2_def ex_map_of2)
  have n0: "0 < entry_count ex_pl2" and n1: "1 < entry_count ex_pl2"
    by (simp_all add: ex_pl2_def)
  show ?thesis
    using compression_kind_by_threshold [OF ex_pack2 ex_small2 n0 c0]
      compression_kind_by_threshold [OF ex_pack2 ex_small2 n1 c1]
    by (simp add: YEP_COMPRESSION_NONE_def YEP_COMPRESSION_ZLIB_def)
qed

lemma ex_files_big: "reg_files [100] ex_tree_big = [([100, 47, 97], replicate 4294967296 0)]"
  by (simp add: ex_tree_big_def)

lemma ex_walked_big: "walked [100] (reg_files [100] ex_tree_big) yep_pack_list_init = ex_pl1"
  by (simp add: ex_files_big walked_def fits_slot_def relative_path_def pack_node_def name_slot_def
      yep_pack_list_init_def ex_pl1_def)

lemma ex_entry_big: "pack_entry_data ex_zlib (replicate 4294967296 0) = Inr ([], 0, 0, 0)"
  by (simp add: pack_entry_data_def get_file_size_def read_file_data_def Let_def
      YEP_COMPRESSION_ZLIB_def YEP_COMPRESSION_NONE_def)

lemma ex_pack_big:
  "yep_pack_directory ex_h ex_zlib ex_tree_big [100] True yep_pack_list_init =
     Inr (True, Some ex_archive_big, ex_pl1)"
proof -
  have m: "map_of (reg_files [100] ex_tree_big) [100, 47, 97] = Some (replicate 4294967296 0)"
    by (simp add: ex_files_big)
  have ok: "\<forall>nd \<in> set (head ex_pl1). node_ok ex_zlib (map_of (reg_files [100] ex_tree_big)) nd"
    using ex_entry_big by (simp add: ex_pl1_def node_ok_def m)
  have pay: "archive_payloads ex_zlib (map_of (reg_files [100] ex_tree_big)) (head ex_pl1) = []"
    by (simp add: archive_payloads_def entry_stored_def ex_pl1_def m ex_entry_big)
  have recs: "archive_records ex_h ex_zlib (map_of (reg_files [100] ex_tree_big)) (head ex_pl1) 81
      = ([97] @ replicate 63 0) @ [81, 0, 0, 0] @ [0, 0, 0, 0] @ [0] @ [0, 0, 0, 0] @ [0]"
    by (simp add: entry_record_def entry_stored_def ex_pl1_def m ex_entry_big le_bytes_4 ex_h_def)
  have l: "length (head ex_pl1) = 1" by (simp add: ex_pl1_def)
  have ver: "YEP_CURRENT_FORMAT_VERSION ex_h = 1" by (simp add: ex_h_def)
  show ?thesis
    using pack_forward [of "[100]" ex_tree_big ex_zlib ex_h]
    unfolding ex_walked_big l using ok
    by (simp add: pay recs le_bytes_2 ver ex_archive_big_def)
qed

text \<open>
  Claim C2 as stated fails for a file of \<open>2 ^ 32\<close> bytes: \<^verbatim>\<open>get_file_size\<close> stores the size
  in 32 bits, which gives 0, so the pack succeeds and the record of the file holds
  compression kind NONE although the file has more than 256 bytes.
\<close>

theorem huge_file_recorded_uncompressed:
  "yep_pack_directory ex_h ex_zlib ex_tree_big [100] True yep_pack_list_init =
     Inr (True, Some ex_archive_big, ex_pl1)
   \<and> map_of (reg_files [100] ex_tree_big) (fullpath (head ex_pl1 ! 0)) = Some (replicate 4294967296 0)
   \<and> length (replicate 4294967296 (0::byte)) > 256
   \<and> rec_compression ex_archive_big 0 = unat YEP_COMPRESSION_NONE"
  by (simp add: ex_pack_big ex_files_big ex_pl1_def rec_compression_def ex_archive_big_def
      YEP_COMPRESSION_NONE_def)




lemma split_14:
  assumes "length B = 14"
  shows "B = take 4 B @ take 4 (drop 4 B) @ take 1 (drop 8 B) @ take 4 (drop 9 B) @ drop 13 B"
proof -
  have d: "B = take 4 B @ drop 4 B" by simp
  have c: "drop 4 B = take 4 (drop 4 B) @ drop 8 B"
    using append_take_drop_id [of 4 "drop 4 B"] by simp
  have b: "drop 8 B = take 1 (drop 8 B) @ drop 9 B"
    using append_take_drop_id [of 1 "drop 8 B"] by simp
  have a: "drop 9 B = take 4 (drop 9 B) @ drop 13 B"
    using append_take_drop_id [of 4 "drop 9 B"] by simp
  show ?thesis by (metis a b c d)
qed

lemma update_header_frame_fields:
  assumes "update_header \<lparr>s_data = d, s_pos = p\<rparr> i off sz ct us dt = Inr f'"
    and "3 + 78 * i + 78 \<le> length d"
  shows "s_data f' =
     take (3 + 78 * i + 64) d
     @ (le_bytes 4 (unat off) @ le_bytes 4 (unat sz) @ [ct] @ le_bytes 4 (unat us) @ [dt])
     @ drop (3 + 78 * i + 78) d"
proof -
  let ?A = "take (3 + 78 * i + 64) d"
  let ?B = "take 14 (drop (3 + 78 * i + 64) d)"
  let ?C = "drop (3 + 78 * i + 78) d"
  have guard: "3 + 78 * i + 64 < 2 ^ 31" using assms(1) by (rule update_header_guard)
  have lA: "length ?A = 3 + 78 * i + 64" using assms(2) by simp
  have lB: "length ?B = 14" using assms(2) by simp
  have "d = ?A @ drop (3 + 78 * i + 64) d" by (simp only: append_take_drop_id)
  also have "drop (3 + 78 * i + 64) d = ?B @ drop 14 (drop (3 + 78 * i + 64) d)"
    by (simp only: append_take_drop_id)
  also have "drop 14 (drop (3 + 78 * i + 64) d) = ?C" by (simp add: add.commute)
  finally have d: "d = ?A @ ?B @ ?C" .
  have "update_header \<lparr>s_data = ?A @ ?B @ ?C, s_pos = p\<rparr> i off sz ct us dt =
      Inr \<lparr>s_data = ?A @ (le_bytes 4 (unat off) @ le_bytes 4 (unat sz) @ [ct]
              @ le_bytes 4 (unat us) @ [dt]) @ ?C, s_pos = length ?A + 14\<rparr>"
  proof (rule update_header_inside [OF lA guard _ _ _ _ _ split_14 [OF lB]])
    show "length (take 4 ?B) = 4" using lB by simp
    show "length (take 4 (drop 4 ?B)) = 4" using lB by simp
    show "length (take 1 (drop 8 ?B)) = 1" using lB by simp
    show "length (take 4 (drop 9 ?B)) = 4" using lB by simp
    show "length (drop 13 ?B) = 1" using lB by simp
  qed
  then have "update_header \<lparr>s_data = d, s_pos = p\<rparr> i off sz ct us dt =
      Inr \<lparr>s_data = ?A @ (le_bytes 4 (unat off) @ le_bytes 4 (unat sz) @ [ct]
              @ le_bytes 4 (unat us) @ [dt]) @ ?C, s_pos = length ?A + 14\<rparr>"
    by (simp only: d [symmetric])
  then show ?thesis using assms(1) by simp
qed

lemma update_header_frame:
  assumes "update_header f i off sz ct us dt = Inr f'"
    and "3 + 78 * i + 78 \<le> length (s_data f)"
  shows "s_data f' =
     take (3 + 78 * i + 64) (s_data f)
     @ (le_bytes 4 (unat off) @ le_bytes 4 (unat sz) @ [ct] @ le_bytes 4 (unat us) @ [dt])
     @ drop (3 + 78 * i + 78) (s_data f)"
  using assms update_header_frame_fields by (cases f) simp

lemma length_archive_payloads_Suc:
  assumes "i < length nodes"
  shows "length (archive_payloads z fs (take (Suc i) nodes)) =
     length (archive_payloads z fs (take i nodes)) + length (entry_stored z fs (nodes ! i))"
  using assms by (simp add: take_Suc_conv_app_nth archive_payloads_def)

text \<open>
  Claim C8. For a successful pack whose archive is shorter than \<open>2 ^ 32\<close> bytes: the payload
  of the first record starts at byte \<open>3 + entry_count * 78\<close>; the payload of each later
  record starts where the payload of the record before it ends; the bytes at a record's
  offset are the payload stored for the node of the same index in the pack list, so the
  payloads follow the order of the records; and the name slot of every record holds the
  name of its node as the first phase wrote it. \<^verbatim>\<open>update_header\<close> for entry \<open>i\<close>, on a file
  that holds record \<open>i\<close>, replaces the 14 bytes from byte \<open>3 + i * 78 + 64\<close> on by the five
  fields and leaves every byte before them (the name slot of the record, the records
  before it) and after them (the later records, the payloads) as it was.
\<close>

theorem payloads_appended_and_records_patched:
  assumes "yep_pack_directory h z tree root can_create yep_pack_list_init = Inr (True, Some a, pl)"
    and "length a < 2 ^ 32"
  shows "(0 < entry_count pl \<longrightarrow> rec_offset a 0 = 3 + entry_count pl * 78)
     \<and> (\<forall>i. Suc i < entry_count pl \<longrightarrow> rec_offset a (Suc i) = rec_offset a i + rec_size a i)
     \<and> (\<forall>i. i < entry_count pl \<longrightarrow>
           rec_size a i = length (entry_stored z (map_of (reg_files root tree)) (head pl ! i))
           \<and> take (rec_size a i) (drop (rec_offset a i) a) =
               entry_stored z (map_of (reg_files root tree)) (head pl ! i)
           \<and> rec_name a i = name (head pl ! i))
     \<and> (\<forall>f i off sz ct us dt f'.
           update_header f i off sz ct us dt = Inr f' \<and> 3 + 78 * i + 78 \<le> length (s_data f) \<longrightarrow>
           s_data f' =
             take (3 + 78 * i + 64) (s_data f)
             @ (le_bytes 4 (unat off) @ le_bytes 4 (unat sz) @ [ct] @ le_bytes 4 (unat us) @ [dt])
             @ drop (3 + 78 * i + 78) (s_data f))"
proof -
  let ?fs = "map_of (reg_files root tree)"
  have cnt: "entry_count pl = length (head pl)" using assms by (rule pack_count)
  have E: "\<And>i. i < length (head pl) \<Longrightarrow>
      rec_offset a i = 3 + 78 * length (head pl)
          + length (archive_payloads z ?fs (take i (head pl)))
      \<and> rec_size a i = length (entry_stored z ?fs (head pl ! i))
      \<and> take (rec_size a i) (drop (rec_offset a i) a) = entry_stored z ?fs (head pl ! i)
      \<and> rec_name a i = name (head pl ! i)"
  proof -
    fix i
    assume i: "i < length (head pl)"
    from packed_entry [OF assms i] obtain c data ds ct us where
      pe: "pack_entry_data z c = Inr (data, ds, ct, us)"
      and st: "entry_stored z ?fs (head pl ! i) = take (unat ds) data"
      and r: "rec_name a i = name (head pl ! i)"
        "rec_offset a i = 3 + 78 * length (head pl)
          + length (archive_payloads z ?fs (take i (head pl)))"
        "rec_size a i = unat ds"
        "take (unat ds) (drop (rec_offset a i) a) = take (unat ds) data"
      by blast
    have "length (take (unat ds) data) = unat ds"
      using pack_entry_data_length [OF pe] by simp
    then show "rec_offset a i = 3 + 78 * length (head pl)
          + length (archive_payloads z ?fs (take i (head pl)))
      \<and> rec_size a i = length (entry_stored z ?fs (head pl ! i))
      \<and> take (rec_size a i) (drop (rec_offset a i) a) = entry_stored z ?fs (head pl ! i)
      \<and> rec_name a i = name (head pl ! i)"
      using st r by simp
  qed
  have 1: "0 < entry_count pl \<longrightarrow> rec_offset a 0 = 3 + entry_count pl * 78"
    using E [of 0] cnt by (simp add: archive_payloads_def)
  have 2: "\<forall>i. Suc i < entry_count pl \<longrightarrow> rec_offset a (Suc i) = rec_offset a i + rec_size a i"
  proof (intro allI impI)
    fix i
    assume "Suc i < entry_count pl"
    then have s: "Suc i < length (head pl)" and i: "i < length (head pl)" using cnt by simp_all
    show "rec_offset a (Suc i) = rec_offset a i + rec_size a i"
      using E [OF s] E [OF i] length_archive_payloads_Suc [OF i, of z ?fs] by simp
  qed
  have 3: "\<forall>i. i < entry_count pl \<longrightarrow>
           rec_size a i = length (entry_stored z ?fs (head pl ! i))
           \<and> take (rec_size a i) (drop (rec_offset a i) a) = entry_stored z ?fs (head pl ! i)
           \<and> rec_name a i = name (head pl ! i)"
  proof (intro allI impI)
    fix i
    assume "i < entry_count pl"
    then have "i < length (head pl)" using cnt by simp
    then show "rec_size a i = length (entry_stored z ?fs (head pl ! i))
           \<and> take (rec_size a i) (drop (rec_offset a i) a) = entry_stored z ?fs (head pl ! i)
           \<and> rec_name a i = name (head pl ! i)"
      using E [of i] by blast
  qed
  have 4: "\<forall>f i off sz ct us dt f'.
           update_header f i off sz ct us dt = Inr f' \<and> 3 + 78 * i + 78 \<le> length (s_data f) \<longrightarrow>
           s_data f' =
             take (3 + 78 * i + 64) (s_data f)
             @ (le_bytes 4 (unat off) @ le_bytes 4 (unat sz) @ [ct] @ le_bytes 4 (unat us) @ [dt])
             @ drop (3 + 78 * i + 78) (s_data f)"
    using update_header_frame by blast
  show ?thesis using 1 2 3 4 by blast
qed

theorem payloads_appended_and_records_patched_witness:
  "rec_offset ex_archive2 0 = 159
   \<and> rec_offset ex_archive2 1 = rec_offset ex_archive2 0 + rec_size ex_archive2 0
   \<and> take (rec_size ex_archive2 0) (drop (rec_offset ex_archive2 0) ex_archive2) = 0 # replicate 300 7
   \<and> take (rec_size ex_archive2 1) (drop (rec_offset ex_archive2 1) ex_archive2) = [1, 2]
   \<and> rec_name ex_archive2 0 = [115, 47, 98] @ replicate 61 0
   \<and> rec_name ex_archive2 1 = [97] @ replicate 63 0"
proof -
  have n: "entry_count ex_pl2 = 2" by (simp add: ex_pl2_def)
  have nm: "name (head ex_pl2 ! 0) = [115, 47, 98] @ replicate 61 0"
    "name (head ex_pl2 ! Suc 0) = [97] @ replicate 63 0"
    by (simp_all add: ex_pl2_def)
  note T = payloads_appended_and_records_patched [OF ex_pack2 ex_small2, unfolded n]
  from T have o0: "rec_offset ex_archive2 0 = 159" by simp
  from T have "\<forall>i. Suc i < 2 \<longrightarrow>
      rec_offset ex_archive2 (Suc i) = rec_offset ex_archive2 i + rec_size ex_archive2 i"
    by blast
  then have o1: "rec_offset ex_archive2 1 = rec_offset ex_archive2 0 + rec_size ex_archive2 0"
    by simp
  from T have e: "\<forall>i. i < 2 \<longrightarrow>
           take (rec_size ex_archive2 i) (drop (rec_offset ex_archive2 i) ex_archive2) =
               entry_stored ex_zlib (map_of (reg_files [100] ex_tree2)) (head ex_pl2 ! i)
           \<and> rec_name ex_archive2 i = name (head ex_pl2 ! i)"
    by blast
  have e0: "take (rec_size ex_archive2 0) (drop (rec_offset ex_archive2 0) ex_archive2) =
      0 # replicate 300 7 \<and> rec_name ex_archive2 0 = [115, 47, 98] @ replicate 61 0"
    using e [rule_format, of 0] by (simp add: ex_stored2 nm)
  have e1: "take (rec_size ex_archive2 1) (drop (rec_offset ex_archive2 1) ex_archive2) =
      [1, 2] \<and> rec_name ex_archive2 1 = [97] @ replicate 63 0"
    using e [rule_format, of 1] by (simp add: ex_stored2 nm)
  show ?thesis using o0 o1 e0 e1 by blast
qed

lemma length_takeWhile_stop:
  "\<not> P z \<Longrightarrow> length (takeWhile P (xs @ z # zs)) \<le> length xs"
  by (induction xs) auto

lemma length_c_string_name_slot:
  assumes "length rel + 1 \<le> 64"
  shows "length (c_string (name_slot rel)) \<le> length rel"
proof -
  obtain k where k: "64 - length rel = Suc k"
    using assms by (cases "64 - length rel") auto
  show ?thesis
    unfolding c_string_def name_slot_def k
    using length_takeWhile_stop [of "\<lambda>c. c \<noteq> 0" 0 rel "replicate k 0"] by simp
qed

lemma walked_init_eq:
  "walked root files yep_pack_list_init =
     \<lparr>entry_count = length (filter (fits_slot root) (map fst files)),
      head = rev (map (pack_node root) (filter (fits_slot root) (map fst files)))\<rparr>"
  by (simp add: walked_def yep_pack_list_init_def)

text \<open>
  Claim C6. The walk of a directory, started with the empty pack list, ends with exactly the
  regular files it met whose relative path and terminator fit 64 bytes, latest first: a
  file whose relative path does not fit is left out and the files after it are still
  taken. When the pack then succeeds with an archive shorter than \<open>2 ^ 32\<close> bytes, the
  records of the archive carry the names of that pack list, and no record carries the
  relative path of a file that was left out.
\<close>

theorem walk_skips_names_that_do_not_fit:
  "ye_walk_directory root root tree yep_pack_list_init =
     \<lparr>entry_count = length (filter (fits_slot root) (map fst (reg_files root tree))),
      head = rev (map (pack_node root) (filter (fits_slot root) (map fst (reg_files root tree))))\<rparr>
   \<and> (yep_pack_directory h z tree root can_create yep_pack_list_init = Inr (True, Some a, pl)
        \<and> length a < 2 ^ 32 \<longrightarrow>
        pl = ye_walk_directory root root tree yep_pack_list_init
        \<and> (\<forall>i. i < length (head pl) \<longrightarrow> rec_name a i = name (head pl ! i))
        \<and> (\<forall>p i. p \<in> set (map fst (reg_files root tree)) \<and> \<not> fits_slot root p
              \<and> i < length (head pl) \<longrightarrow>
              c_string (rec_name a i) \<noteq> relative_path root p))"
proof (intro conjI impI)
  show w: "ye_walk_directory root root tree yep_pack_list_init =
     \<lparr>entry_count = length (filter (fits_slot root) (map fst (reg_files root tree))),
      head = rev (map (pack_node root) (filter (fits_slot root) (map fst (reg_files root tree))))\<rparr>"
    by (simp only: walk_eq walked_init_eq)
next
  assume A: "yep_pack_directory h z tree root can_create yep_pack_list_init = Inr (True, Some a, pl)
        \<and> length a < 2 ^ 32"
  then have pack: "yep_pack_directory h z tree root can_create yep_pack_list_init = Inr (True, Some a, pl)"
    and small: "length a < 2 ^ 32" by simp_all
  have pl: "pl = walked root (reg_files root tree) yep_pack_list_init"
    using pack_layout [OF pack small] by simp
  show "pl = ye_walk_directory root root tree yep_pack_list_init"
    using pl by (simp only: walk_eq)
  have nm: "\<And>i. i < length (head pl) \<Longrightarrow> rec_name a i = name (head pl ! i)"
    using packed_entry [OF pack small] by blast
  show "\<forall>i. i < length (head pl) \<longrightarrow> rec_name a i = name (head pl ! i)"
    using nm by blast
  show "\<forall>p i. p \<in> set (map fst (reg_files root tree)) \<and> \<not> fits_slot root p
              \<and> i < length (head pl) \<longrightarrow>
              c_string (rec_name a i) \<noteq> relative_path root p"
  proof (intro allI impI)
    fix p i
    assume B: "p \<in> set (map fst (reg_files root tree)) \<and> \<not> fits_slot root p
              \<and> i < length (head pl)"
    then have i: "i < length (head pl)" and long: "\<not> fits_slot root p" by simp_all
    have "head pl ! i \<in> set (head pl)" using i by simp
    then obtain q where q: "fits_slot root q" and nd: "head pl ! i = pack_node root q"
      unfolding pl walked_head yep_pack_list_init_def by auto
    have "length (c_string (rec_name a i)) \<le> length (relative_path root q)"
      using nm [OF i] nd q length_c_string_name_slot [of "relative_path root q"]
      by (simp add: pack_node_def fits_slot_def)
    moreover have "length (relative_path root q) < length (relative_path root p)"
      using q long by (simp add: fits_slot_def)
    ultimately show "c_string (rec_name a i) \<noteq> relative_path root p" by auto
  qed
qed

lemma ex_fits2:
  "filter (fits_slot [100]) (map fst (reg_files [100] ex_tree2)) =
     [[100, 47, 97], [100, 47, 115, 47, 98]]"
  by (simp add: ex_files2 fits_slot_def relative_path_def)

theorem walk_skips_names_that_do_not_fit_witness:
  "ye_walk_directory [100] [100] ex_tree2 yep_pack_list_init = ex_pl2
   \<and> [100, 47] @ replicate 70 120 \<in> set (map fst (reg_files [100] ex_tree2))
   \<and> \<not> fits_slot [100] ([100, 47] @ replicate 70 120)
   \<and> rec_name ex_archive2 0 = [115, 47, 98] @ replicate 61 0
   \<and> rec_name ex_archive2 1 = [97] @ replicate 63 0
   \<and> c_string (rec_name ex_archive2 0) \<noteq> replicate 70 120
   \<and> c_string (rec_name ex_archive2 1) \<noteq> replicate 70 120"
proof -
  note T = walk_skips_names_that_do_not_fit [of "[100]" ex_tree2 ex_h ex_zlib True ex_archive2 ex_pl2]
  have w: "ye_walk_directory [100] [100] ex_tree2 yep_pack_list_init = ex_pl2"
    using T by (simp add: ex_fits2 ex_pl2_def pack_node_def relative_path_def name_slot_def)
  from T ex_pack2 ex_small2 have
    n: "\<forall>i. i < length (head ex_pl2) \<longrightarrow> rec_name ex_archive2 i = name (head ex_pl2 ! i)"
    and x: "\<forall>p i. p \<in> set (map fst (reg_files [100] ex_tree2)) \<and> \<not> fits_slot [100] p
              \<and> i < length (head ex_pl2) \<longrightarrow>
              c_string (rec_name ex_archive2 i) \<noteq> relative_path [100] p"
    by blast+
  have m: "[100, 47] @ replicate 70 120 \<in> set (map fst (reg_files [100] ex_tree2))"
    by (simp add: ex_files2)
  have l: "\<not> fits_slot [100] ([100, 47] @ replicate 70 120)"
    by (simp add: fits_slot_def relative_path_def)
  have r: "relative_path [100] ([100, 47] @ replicate 70 120) = replicate 70 120"
    by (simp add: relative_path_def)
  have i0: "0 < length (head ex_pl2)" and i1: "1 < length (head ex_pl2)"
    by (simp_all add: ex_pl2_def)
  have n0: "rec_name ex_archive2 0 = [115, 47, 98] @ replicate 61 0"
    using n i0 by (simp add: ex_pl2_def)
  have n1: "rec_name ex_archive2 1 = [97] @ replicate 63 0"
    using n i1 by (simp add: ex_pl2_def)
  have x0: "c_string (rec_name ex_archive2 0) \<noteq> replicate 70 120"
    using x m l i0 r by metis
  have x1: "c_string (rec_name ex_archive2 1) \<noteq> replicate 70 120"
    using x m l i1 r by metis
  show ?thesis using w m l n0 n1 x0 x1 by blast
qed

section \<open>The round trip\<close>









lemma printf_s_Some:
  "printf_s (map Some xs @ rest) = (if 0 \<in> set xs then Inr () else printf_s rest)"
  by (induction xs) auto


lemma printf_s_content:
  "printf_s (map Some xs) = (if 0 \<in> set xs then Inr () else Inl OutOfBounds)"
  using printf_s_Some [of xs "[]"] by simp






lemma zero_in_name_slot: "length rel + 1 \<le> 64 \<Longrightarrow> 0 \<in> set (name_slot rel)"
  by (simp add: name_slot_def)











lemma packed_names_printable:
  assumes "yep_pack_directory h z tree root can_create yep_pack_list_init = Inr (True, Some a, pl)"
    and "length a < 2 ^ 32" and "k < entry_count pl"
  shows "printf_s (map Some (rec_name a k)) = Inr ()"
proof -
  have cnt: "entry_count pl = length (head pl)" using assms(1,2) by (rule pack_count)
  then have k: "k < length (head pl)" using assms(3) by simp
  from packed_entry [OF assms(1,2) k] have n: "rec_name a k = name (head pl ! k)" by blast
  have pl: "pl = walked root (reg_files root tree) yep_pack_list_init"
    using pack_layout [OF assms(1,2)] by blast
  have "head pl ! k \<in> set (head pl)" using k by (rule nth_mem)
  then have "head pl ! k \<in> set (head (walked root (reg_files root tree) yep_pack_list_init))"
    using pl by simp
  then have "0 \<in> set (name (head pl ! k))"
    by (auto simp: walked_head yep_pack_list_init_def pack_node_def fits_slot_def
        zero_in_name_slot)
  then show ?thesis by (simp add: n printf_s_content)
qed












end
